theory Spec2Isabelle
  imports Main
begin

section \<open>Strings and the id-set encoding (server.mjs, lines 60-66)\<close>

text \<open>
  JavaScript strings are modelled as \<^typ>\<open>string\<close>; a \<^typ>\<open>char\<close> stands for one code unit
  in the Latin-1 range. A field that is \<open>undefined\<close> in the record is \<open>None\<close>.
\<close>

definition is_ws :: "char \<Rightarrow> bool" where
  \<comment> \<open>the white space that \<open>String.prototype.trim\<close> strips, below U+0100\<close>
  "is_ws c = (c \<in> {CHR 0x09, CHR 0x0A, CHR 0x0B, CHR 0x0C, CHR 0x0D, CHR 0x20, CHR 0xA0})"

definition trim :: "string \<Rightarrow> string" where
  "trim s = rev (dropWhile is_ws (rev (dropWhile is_ws s)))"

fun split_from :: "char \<Rightarrow> string \<Rightarrow> string \<Rightarrow> string list" where
  "split_from c cur [] = [cur]"
| "split_from c cur (x # xs) =
     (if x = c then cur # split_from c [] xs else split_from c (cur @ [x]) xs)"

definition split :: "char \<Rightarrow> string \<Rightarrow> string list" where
  \<comment> \<open>\<open>s.split(c)\<close>: the empty string splits into one empty piece\<close>
  "split c s = split_from c [] s"

fun join :: "string \<Rightarrow> string list \<Rightarrow> string" where
  "join sep [] = []"
| "join sep [x] = x"
| "join sep (x # y # ys) = x @ sep @ join sep (y # ys)"

definition or_empty :: "string option \<Rightarrow> string" where
  \<comment> \<open>\<open>str || ""\<close>\<close>
  "or_empty v = (case v of None \<Rightarrow> [] | Some s \<Rightarrow> s)"

definition truthy :: "string \<Rightarrow> bool" where
  \<comment> \<open>\<open>Boolean(s)\<close> on a string\<close>
  "truthy s = (s \<noteq> [])"

definition set_add :: "'a list \<Rightarrow> 'a \<Rightarrow> 'a list" where
  \<comment> \<open>\<open>Set.prototype.add\<close>: a Set keeps insertion order and ignores a member added again\<close>
  "set_add xs x = (if x \<in> set xs then xs else xs @ [x])"

definition new_Set :: "'a list \<Rightarrow> 'a list" where
  "new_Set xs = foldl set_add [] xs"

definition id_tokens :: "string \<Rightarrow> string list" where
  \<comment> \<open>\<open>s.split(",").map((s) => s.trim()).filter(Boolean)\<close>, shared by both functions\<close>
  "id_tokens s = filter truthy (map trim (split CHR '','' s))"

definition mergeIds :: "string option \<Rightarrow> string list \<Rightarrow> string" where
  "mergeIds existing newIds =
     join '', '' (foldl set_add (new_Set (id_tokens (or_empty existing))) newIds)"

definition parseIds :: "string option \<Rightarrow> string list" where
  "parseIds str = new_Set (id_tokens (or_empty str))"


section \<open>The record store (server.mjs, lines 40-58)\<close>

text \<open>
  One Airtable record is the batch. Every field may be absent (\<open>None\<close>). A time stamp
  written by \<open>nowISO()\<close> is modelled by the instant it denotes, in milliseconds.
\<close>

record attachment =
  url :: string
  filename :: string

record fields =
  Prompt :: "string option"
  Subject :: "attachment list option"
  Size :: "string option"
  Batch_Count :: "int option"
  Model :: "string option"
  Status :: "string option"
  Request_IDs :: "string option"
  Seen_IDs :: "string option"
  Failed_IDs :: "string option"
  Output :: "attachment list option"
  Last_Update :: "nat option"
  Completed_At :: "nat option"

datatype error =
    AirtableGetFailed
  | AirtablePatchFailed
  | FetchFailed
  | SubmitFailed
  | NoRequestID
  | GetResultFailed
  | MissingPromptOrSubject

type_synonym store = "string \<rightharpoonup> fields"

definition no_fields :: fields where
  \<comment> \<open>the object \<open>{}\<close>\<close>
  "no_fields = \<lparr>Prompt = None, Subject = None, Size = None, Batch_Count = None, Model = None,
     Status = None, Request_IDs = None, Seen_IDs = None, Failed_IDs = None, Output = None,
     Last_Update = None, Completed_At = None\<rparr>"

definition override :: "'a option \<Rightarrow> 'a option \<Rightarrow> 'a option" where
  \<comment> \<open>a key of the PATCH body replaces the stored value; \<open>JSON.stringify\<close> drops a key
      whose value is \<open>undefined\<close>, and the stored value stays\<close>
  "override new old = (case new of None \<Rightarrow> old | Some v \<Rightarrow> Some v)"

definition patch_fields :: "fields \<Rightarrow> fields \<Rightarrow> fields" where
  "patch_fields p f =
     \<lparr>Prompt = override (Prompt p) (Prompt f),
      Subject = override (Subject p) (Subject f),
      Size = override (Size p) (Size f),
      Batch_Count = override (Batch_Count p) (Batch_Count f),
      Model = override (Model p) (Model f),
      Status = override (Status p) (Status f),
      Request_IDs = override (Request_IDs p) (Request_IDs f),
      Seen_IDs = override (Seen_IDs p) (Seen_IDs f),
      Failed_IDs = override (Failed_IDs p) (Failed_IDs f),
      Output = override (Output p) (Output f),
      Last_Update = override (Last_Update p) (Last_Update f),
      Completed_At = override (Completed_At p) (Completed_At f)\<rparr>"

definition atGet :: "store \<Rightarrow> string \<Rightarrow> error + fields" where
  \<comment> \<open>the request fails when the store has no such record\<close>
  "atGet st recordId = (case st recordId of None \<Rightarrow> Inl AirtableGetFailed | Some f \<Rightarrow> Inr f)"

definition atPatch :: "store \<Rightarrow> string \<Rightarrow> fields \<Rightarrow> error + store" where
  "atPatch st recordId p =
     (case st recordId of
        None \<Rightarrow> Inl AirtablePatchFailed
      | Some f \<Rightarrow> Inr (st(recordId \<mapsto> patch_fields p f)))"

section \<open>The completion reconciler (server.mjs, lines 68-76 and 122-136)\<close>

definition markCompleted :: "nat \<Rightarrow> store \<Rightarrow> string \<Rightarrow> error + store" where
  \<comment> \<open>\<open>now\<close> is the clock reading of \<open>nowISO()\<close> at line 74\<close>
  "markCompleted now st recordId =
     (case atGet st recordId of
        Inl e \<Rightarrow> Inl e
      | Inr f \<Rightarrow>
          let req = parseIds (Request_IDs f);
              seen = parseIds (Seen_IDs f)
          in if length req > 0 \<and> list_all (\<lambda>i. i \<in> set seen) req
             then atPatch st recordId
                    (no_fields\<lparr>Status := Some ''completed'', Completed_At := Some now\<rparr>)
             else Inr st)"

fun show_nat :: "nat \<Rightarrow> string" where
  "show_nat n =
     (if n < 10 then [char_of (48 + n)]
      else show_nat (n div 10) @ [char_of (48 + n mod 10)])"

declare show_nat.simps [simp del]

record ao_args =
  outputs :: "string list"
  requestId :: string
  failed :: bool

definition output_entries :: "string \<Rightarrow> string list \<Rightarrow> attachment list" where
  \<comment> \<open>\<open>outputs.map((url, i) => ({ url, filename: `var_${requestId}_${i}.png` }))\<close>\<close>
  "output_entries rid outs =
     map (\<lambda>(i, u). \<lparr>url = u, filename = ''var_'' @ rid @ ''_'' @ show_nat i @ ''.png''\<rparr>)
       (enumerate 0 outs)"

definition appendOutputs :: "nat \<Rightarrow> nat \<Rightarrow> store \<Rightarrow> string \<Rightarrow> ao_args \<Rightarrow> error + store" where
  \<comment> \<open>\<open>t_upd\<close> is the clock reading at line 132, \<open>t_done\<close> the one \<open>markCompleted\<close> takes\<close>
  "appendOutputs t_upd t_done st recordId a =
     (case atGet st recordId of
        Inl e \<Rightarrow> Inl e
      | Inr f \<Rightarrow>
          let prev = (case Output f of Some xs \<Rightarrow> xs | None \<Rightarrow> []);
              newOutputs = prev @ output_entries (requestId a) (outputs a)
          in case atPatch st recordId
                    (no_fields\<lparr>Output := Some newOutputs,
                       Seen_IDs := Some (mergeIds (Seen_IDs f) [requestId a]),
                       Failed_IDs := (if failed a
                                      then Some (mergeIds (Failed_IDs f) [requestId a])
                                      else Failed_IDs f),
                       Last_Update := Some t_upd\<rparr>) of
               Inl e \<Rightarrow> Inl e
             | Inr st' \<Rightarrow> markCompleted t_done st' recordId)"


section \<open>The job service (server.mjs, lines 78-120)\<close>

text \<open>
  The job service is the environment: a call is given the reply it receives. A reply is a
  failed fetch, a response that is not ok, a body that does not parse, or a JSON body.
\<close>

datatype 'a http_reply = FetchThrows | NotOk | BodyNotJson | OkJson 'a

type_synonym request_map = "string \<rightharpoonup> string"

record submit_json =
  data_id :: "string option"
  top_id :: "string option"

definition or_else :: "string option \<Rightarrow> string option \<Rightarrow> string option" where
  \<comment> \<open>\<open>a || b\<close> on values that are strings or \<open>undefined\<close>\<close>
  "or_else a b = (case a of None \<Rightarrow> b | Some s \<Rightarrow> if truthy s then Some s else b)"

definition falsy :: "string option \<Rightarrow> bool" where
  \<comment> \<open>\<open>!v\<close>\<close>
  "falsy v = (case v of None \<Rightarrow> True | Some s \<Rightarrow> \<not> truthy s)"

definition submitVariation ::
  "request_map \<Rightarrow> string \<Rightarrow> submit_json http_reply \<Rightarrow> error + (string \<times> request_map)" where
  "submitVariation rm recordId reply =
     (case reply of
        OkJson json \<Rightarrow>
          (case or_else (data_id json) (top_id json) of
             None \<Rightarrow> Inl NoRequestID
           | Some rid \<Rightarrow>
               if \<not> truthy rid then Inl NoRequestID
               else Inr (rid, rm(rid \<mapsto> recordId)))
      | _ \<Rightarrow> Inl SubmitFailed)"

definition lower_char :: "char \<Rightarrow> char" where
  "lower_char c =
     (let n = (of_char c :: nat)
      in if (65 \<le> n \<and> n \<le> 90) \<or> (192 \<le> n \<and> n \<le> 222 \<and> n \<noteq> 215)
         then char_of (n + 32) else c)"

definition toLowerCase :: "string \<Rightarrow> string" where
  "toLowerCase s = map lower_char s"

record result_json =
  r_status :: "string option"
  r_output :: "string list option"
  r_outputs :: "string list option"

definition getResult :: "result_json http_reply \<Rightarrow> error + (string \<times> string list)" where
  \<comment> \<open>the JSON given is \<open>json.data || json\<close>\<close>
  "getResult reply =
     (case reply of
        OkJson d \<Rightarrow>
          Inr (toLowerCase (case or_else (r_status d) (Some ''processing'') of
                              Some s \<Rightarrow> s | None \<Rightarrow> ''processing''),
               (case r_output d of
                  Some xs \<Rightarrow> xs
                | None \<Rightarrow> (case r_outputs d of Some ys \<Rightarrow> ys | None \<Rightarrow> [])))
      | _ \<Rightarrow> Inl GetResultFailed)"

section \<open>The poller (server.mjs, lines 139-163)\<close>

text \<open>
  The clock is in milliseconds. In round \<open>i\<close> of the loop the status request receives
  \<open>replies i\<close> and takes \<open>delay i\<close>; a round that does not return then sleeps 7000. The run
  yields the reconciler calls it made, in order, the number of status requests, and the
  store or the error the run ends with.
\<close>

record poll_env =
  replies :: "nat \<Rightarrow> result_json http_reply"
  delay :: "nat \<Rightarrow> nat"

record poll_run =
  calls :: "ao_args list"
  fetches :: nat
  outcome :: "error + store"

definition failure_args :: "string \<Rightarrow> ao_args" where
  "failure_args rid = \<lparr>outputs = [], requestId = rid, failed = True\<rparr>"

definition success_args :: "string \<Rightarrow> string list \<Rightarrow> ao_args" where
  "success_args rid outs = \<lparr>outputs = outs, requestId = rid, failed = False\<rparr>"

definition poll_catch ::
  "nat \<Rightarrow> store \<Rightarrow> string \<Rightarrow> string \<Rightarrow> nat \<Rightarrow> ao_args list \<Rightarrow> poll_run" where
  \<comment> \<open>the \<open>catch\<close> block, lines 155-159\<close>
  "poll_catch now st rid recordId n done =
     \<lparr>calls = done @ [failure_args rid], fetches = n,
      outcome = appendOutputs now now st recordId (failure_args rid)\<rparr>"

function pollLoop ::
  "poll_env \<Rightarrow> string \<Rightarrow> string \<Rightarrow> nat \<Rightarrow> nat \<Rightarrow> nat \<Rightarrow> store \<Rightarrow> poll_run" where
  "pollLoop env rid recordId timeout now i st =
     (if now < timeout then
        (let now' = now + delay env i
         in case getResult (replies env i) of
              Inl e \<Rightarrow> poll_catch now' st rid recordId (Suc i) []
            | Inr (status, outs) \<Rightarrow>
                if status \<in> set [''completed'', ''succeeded''] then
                  (case appendOutputs now' now' st recordId (success_args rid outs) of
                     Inl e \<Rightarrow> poll_catch now' st rid recordId (Suc i) [success_args rid outs]
                   | Inr st' \<Rightarrow>
                       \<lparr>calls = [success_args rid outs], fetches = Suc i, outcome = Inr st'\<rparr>)
                else if status \<in> set [''failed'', ''error''] then
                  (case appendOutputs now' now' st recordId (failure_args rid) of
                     Inl e \<Rightarrow> poll_catch now' st rid recordId (Suc i) [failure_args rid]
                   | Inr st' \<Rightarrow>
                       \<lparr>calls = [failure_args rid], fetches = Suc i, outcome = Inr st'\<rparr>)
                else pollLoop env rid recordId timeout (now' + 7000) (Suc i) st)
      else \<lparr>calls = [failure_args rid], fetches = i,
             outcome = appendOutputs now now st recordId (failure_args rid)\<rparr>)"
  by pat_completeness auto
termination
  by (relation "measure (\<lambda>(env, rid, recordId, timeout, now, i, st). timeout - now)") auto

declare pollLoop.simps [simp del]

definition pollUntilDone :: "poll_env \<Rightarrow> nat \<Rightarrow> string \<Rightarrow> string \<Rightarrow> store \<Rightarrow> poll_run" where
  \<comment> \<open>\<open>start\<close> is the clock reading at line 140\<close>
  "pollUntilDone env start rid recordId st =
     pollLoop env rid recordId (start + 20 * 60 * 1000) start 0 st"


section \<open>The batch coordinator (server.mjs, lines 166-211)\<close>

definition is_digit :: "char \<Rightarrow> bool" where
  "is_digit c = (c \<in> set ''0123456789'')"

fun digits_le :: "string \<Rightarrow> string \<Rightarrow> bool" where
  \<comment> \<open>the order of the integers that two digit strings of one length write\<close>
  "digits_le [] bs = True"
| "digits_le (a # as) [] = False"
| "digits_le (a # as) (b # bs) =
     ((of_char a :: nat) < of_char b \<or> (a = b \<and> digits_le as bs))"

definition number_text :: "(string \<Rightarrow> string) \<Rightarrow> string \<Rightarrow> string" where
  \<comment> \<open>the text of \<open>+m[k]\<close> in a template string, for a string of decimal digits. Up to
      \<open>2^53 = 9007199254740992\<close> the double is the integer written, and its text is the
      digits without leading zeros. Beyond, the double is a rounded value; its text is
      \<open>beyond ds\<close>, which the environment gives\<close>
  "number_text beyond ds =
     (let sig = dropWhile (\<lambda>c. c = CHR ''0'') ds
      in if sig = [] then ''0''
         else if length sig < 16 \<or> (length sig = 16 \<and> digits_le sig ''9007199254740992'')
         then sig
         else beyond ds)"

definition match_here :: "string \<Rightarrow> (string \<times> string) option" where
  \<comment> \<open>\<open>(\d+)\s*[xX*]\s*(\d+)\<close> anchored at the head of the string; each greedy run is
      the longest one, since a shorter run is followed by a character of the same class\<close>
  "match_here s =
     (let d1 = takeWhile is_digit s;
          r1 = dropWhile is_ws (dropWhile is_digit s)
      in if d1 = [] then None
         else (case r1 of
                 [] \<Rightarrow> None
               | c # r2 \<Rightarrow>
                   if c \<in> set ''xX*'' then
                     (let d2 = takeWhile is_digit (dropWhile is_ws r2)
                      in if d2 = [] then None else Some (d1, d2))
                   else None))"

fun size_match :: "string \<Rightarrow> (string \<times> string) option" where
  \<comment> \<open>\<open>sizeStr.match(...)\<close>: the leftmost match\<close>
  "size_match [] = match_here []"
| "size_match (c # cs) =
     (case match_here (c # cs) of Some m \<Rightarrow> Some m | None \<Rightarrow> size_match cs)"

definition clampBatchCount :: "int option \<Rightarrow> int" where
  \<comment> \<open>line 179; \<open>Number(v) || 4\<close> is 4 when the field is absent and when it is 0\<close>
  "clampBatchCount v =
     max 1 (min 10 (case v of None \<Rightarrow> 4 | Some n \<Rightarrow> if n = 0 then 4 else n))"

function submitLoop ::
  "(nat \<Rightarrow> submit_json http_reply) \<Rightarrow> string \<Rightarrow> nat \<Rightarrow> nat \<Rightarrow> string list \<times> request_map
     \<Rightarrow> string list \<times> request_map" where
  \<comment> \<open>lines 196-205: round \<open>i\<close> receives \<open>submits i\<close>; a failed submission is skipped\<close>
  "submitLoop submits recordId batchCount i (requestIds, rm) =
     (if i < batchCount then
        (case submitVariation rm recordId (submits i) of
           Inr (rid, rm') \<Rightarrow> submitLoop submits recordId batchCount (Suc i) (requestIds @ [rid], rm')
         | Inl e \<Rightarrow> submitLoop submits recordId batchCount (Suc i) (requestIds, rm))
      else (requestIds, rm))"
  by pat_completeness auto
termination
  by (relation "measure (\<lambda>(submits, recordId, batchCount, i, acc). batchCount - i)") auto

declare submitLoop.simps [simp del]

record start_result =
  res_recordId :: string
  submitted :: nat
  res_requestIds :: "string list"

definition startVariations ::
  "(string \<Rightarrow> string) \<Rightarrow> nat \<Rightarrow> store \<Rightarrow> request_map \<Rightarrow> string \<Rightarrow> error + string
     \<Rightarrow> (nat \<Rightarrow> submit_json http_reply) \<Rightarrow> error + (start_result \<times> store \<times> request_map)" where
  \<comment> \<open>\<open>now\<close> is the clock reading at line 190, \<open>fetched\<close> what \<open>urlToDataURL\<close> yields; the
      pollers of line 208 run on their own after the call. Of \<open>width\<close> and \<open>height\<close> the
      model keeps the text, which is all that is written to the record\<close>
  "startVariations beyond now st rm recordId fetched submits =
     (case atGet st recordId of
        Inl e \<Rightarrow> Inl e
      | Inr f \<Rightarrow>
          let prompt = or_empty (Prompt f);
              subjectUrl = (case Subject f of Some (a # _) \<Rightarrow> url a | _ \<Rightarrow> [])
          in if \<not> truthy prompt \<or> \<not> truthy subjectUrl then Inl MissingPromptOrSubject
             else
               let (width, height) =
                     (case size_match (or_empty (Size f)) of
                        Some (w, h) \<Rightarrow> (number_text beyond w, number_text beyond h)
                      | None \<Rightarrow> (''1024'', ''1344''));
                   batchCount = nat (clampBatchCount (Batch_Count f))
               in case fetched of
                    Inl e \<Rightarrow> Inl e
                  | Inr imageDataUrl \<Rightarrow>
                      (case atPatch st recordId
                              (no_fields\<lparr>Status := Some ''processing'',
                                 Request_IDs := Some [],
                                 Seen_IDs := Some [],
                                 Failed_IDs := Some [],
                                 Last_Update := Some now,
                                 Model := Some ''Seedream v4 (edit-sequential)'',
                                 Size := Some (width @ ''x'' @ height)\<rparr>) of
                         Inl e \<Rightarrow> Inl e
                       | Inr st1 \<Rightarrow>
                           let (requestIds, rm') = submitLoop submits recordId batchCount 0 ([], rm)
                           in case atPatch st1 recordId
                                     (no_fields\<lparr>Request_IDs := Some (join '', '' requestIds)\<rparr>) of
                                Inl e \<Rightarrow> Inl e
                              | Inr st2 \<Rightarrow>
                                  Inr (\<lparr>res_recordId = recordId, submitted = length requestIds,
                                         res_requestIds = requestIds\<rparr>, st2, rm')))"

section \<open>The push listener (server.mjs, lines 230-250)\<close>

record webhook_body =
  b_request_id :: "string option"
  b_id :: "string option"
  b_status :: "string option"
  b_output :: "string list option"

datatype response_body = OkFlag bool | ErrorMessage error

record webhook_run =
  code :: nat
  body :: response_body
  reconciled :: "ao_args list"
  store_after :: store

definition webhook :: "nat \<Rightarrow> nat \<Rightarrow> store \<Rightarrow> request_map \<Rightarrow> webhook_body \<Rightarrow> webhook_run" where
  \<comment> \<open>\<open>t_upd\<close> and \<open>t_done\<close> are the clock readings of a reconciler call, if one is made;
      \<open>reconciled\<close> lists the reconciler calls of the run\<close>
  "webhook t_upd t_done st rm b =
     (let rid = or_else (b_request_id b) (b_id b);
          status = toLowerCase (or_empty (b_status b));
          outs = (case b_output b of Some xs \<Rightarrow> xs | None \<Rightarrow> []);
          recordId = (case rid of None \<Rightarrow> None | Some r \<Rightarrow> rm r)
      in case (recordId, rid) of
           (Some rec, Some r) \<Rightarrow>
             if \<not> truthy rec
             then \<lparr>code = 202, body = OkFlag False, reconciled = [], store_after = st\<rparr>
             else if status \<in> set [''completed'', ''succeeded''] then
               (case appendOutputs t_upd t_done st rec (success_args r outs) of
                  Inl e \<Rightarrow> \<lparr>code = 500, body = ErrorMessage e,
                             reconciled = [success_args r outs], store_after = st\<rparr>
                | Inr st' \<Rightarrow> \<lparr>code = 200, body = OkFlag True,
                              reconciled = [success_args r outs], store_after = st'\<rparr>)
             else if status \<in> set [''failed'', ''error''] then
               (case appendOutputs t_upd t_done st rec (failure_args r) of
                  Inl e \<Rightarrow> \<lparr>code = 500, body = ErrorMessage e,
                             reconciled = [failure_args r], store_after = st\<rparr>
                | Inr st' \<Rightarrow> \<lparr>code = 200, body = OkFlag True,
                              reconciled = [failure_args r], store_after = st'\<rparr>)
             else \<lparr>code = 200, body = OkFlag True, reconciled = [], store_after = st\<rparr>
         | _ \<Rightarrow> \<lparr>code = 202, body = OkFlag False, reconciled = [], store_after = st\<rparr>)"

section \<open>The batch as the specification reads it\<close>


definition jobIds :: "fields \<Rightarrow> string set" where
  "jobIds f = set (parseIds (Request_IDs f))"

definition seenIds :: "fields \<Rightarrow> string set" where
  "seenIds f = set (parseIds (Seen_IDs f))"

definition failedIds :: "fields \<Rightarrow> string set" where
  "failedIds f = set (parseIds (Failed_IDs f))"

definition field_of :: "(fields \<Rightarrow> 'a) \<Rightarrow> string \<Rightarrow> error + store \<Rightarrow> 'a option" where
  "field_of sel recordId r =
     (case r of Inl e \<Rightarrow> None | Inr st \<Rightarrow> map_option sel (st recordId))"

fun reconcileAll :: "store \<Rightarrow> string \<Rightarrow> (nat \<times> nat \<times> ao_args) list \<Rightarrow> error + store" where
  \<comment> \<open>a sequence of reconciler calls on one batch, each with its two clock readings\<close>
  "reconcileAll st recordId [] = Inr st"
| "reconcileAll st recordId ((t_upd, t_done, a) # cs) =
     (case appendOutputs t_upd t_done st recordId a of
        Inl e \<Rightarrow> Inl e
      | Inr st' \<Rightarrow> reconcileAll st' recordId cs)"

definition prev_outputs :: "fields \<Rightarrow> attachment list" where
  \<comment> \<open>\<open>Array.isArray(f["Output"]) ? f["Output"] : []\<close>\<close>
  "prev_outputs f = (case Output f of Some xs \<Rightarrow> xs | None \<Rightarrow> [])"

section \<open>Example batches\<close>

definition batch_with :: "string \<Rightarrow> fields" where
  \<comment> \<open>a record as \<open>startVariations\<close> leaves it, with the given Request IDs\<close>
  "batch_with ids =
     \<lparr>Prompt = Some ''a red chair'',
      Subject = Some [\<lparr>url = ''https://img.example/s.png'', filename = ''s.png''\<rparr>],
      Size = Some ''1024x1344'', Batch_Count = Some 2,
      Model = Some ''Seedream v4 (edit-sequential)'', Status = Some ''processing'',
      Request_IDs = Some ids, Seen_IDs = Some [], Failed_IDs = Some [], Output = None,
      Last_Update = Some 0, Completed_At = None\<rparr>"

definition store_with :: "string \<Rightarrow> store" where
  "store_with ids = Map.empty(''rec1'' \<mapsto> batch_with ids)"

definition batch_done :: fields where
  \<comment> \<open>\<open>batch_with "A, B"\<close> after the success of \<open>A\<close> at time 1 and the failure of \<open>B\<close>
      at time 3, completed at time 4\<close>
  "batch_done =
     (batch_with ''A, B'')
       \<lparr>Status := Some ''completed'', Seen_IDs := Some ''A, B'', Failed_IDs := Some ''B'',
        Output := Some [\<lparr>url = ''u1'', filename = ''var_A_0.png''\<rparr>],
        Last_Update := Some 3, Completed_At := Some 4\<rparr>"

definition store_done :: store where
  "store_done = Map.empty(''rec1'' \<mapsto> batch_done)"

section \<open>The fan-out as the specification reads it\<close>

definition reply_id :: "submit_json http_reply \<Rightarrow> string option" where
  \<comment> \<open>the job id \<open>submitVariation\<close> returns on this reply, \<open>None\<close> when it throws\<close>
  "reply_id reply =
     (case submitVariation Map.empty [] reply of Inl e \<Rightarrow> None | Inr (rid, rm) \<Rightarrow> Some rid)"

definition submitted_of :: "error + (start_result \<times> store \<times> request_map) \<Rightarrow> nat option" where
  "submitted_of r = (case r of Inl e \<Rightarrow> None | Inr (res, st, rm) \<Rightarrow> Some (submitted res))"

definition request_ids_of ::
  "string \<Rightarrow> error + (start_result \<times> store \<times> request_map) \<Rightarrow> string option option" where
  "request_ids_of recordId r =
     (case r of Inl e \<Rightarrow> None | Inr (res, st, rm) \<Rightarrow> map_option Request_IDs (st recordId))"

definition all_accepted :: "nat \<Rightarrow> submit_json http_reply" where
  \<comment> \<open>a job service that accepts submission \<open>i\<close> as job \<open>job<i>\<close>\<close>
  "all_accepted i = OkJson \<lparr>data_id = Some (''job'' @ show_nat i), top_id = None\<rparr>"

definition second_rejected :: "nat \<Rightarrow> submit_json http_reply" where
  \<comment> \<open>a job service that rejects the second submission and accepts the others\<close>
  "second_rejected i = (if i = 1 then NotOk else all_accepted i)"

definition text_unused :: "string \<Rightarrow> string" where
  \<comment> \<open>for runs whose size numbers stay below \<open>2^53\<close>, where the text of a rounded
      double is never asked for\<close>
  "text_unused ds = []"

definition store_count :: "int option \<Rightarrow> store" where
  \<comment> \<open>the record \<open>rec1\<close> before a run, with the given Batch Count\<close>
  "store_count n =
     Map.empty(''rec1'' \<mapsto> (batch_with [])\<lparr>Batch_Count := n, Status := Some ''idle''\<rparr>)"

definition inputs_ok :: "fields \<Rightarrow> bool" where
  \<comment> \<open>the check of line 172 passes: a prompt and a subject url are there\<close>
  "inputs_ok f =
     (truthy (or_empty (Prompt f)) \<and>
      truthy (case Subject f of Some (a # _) \<Rightarrow> url a | _ \<Rightarrow> []))"

section \<open>The poller's clock and replies as the specification reads them\<close>

definition pending :: "result_json http_reply \<Rightarrow> bool" where
  \<comment> \<open>the status request returns, with a status that is not terminal\<close>
  "pending reply =
     (case getResult reply of
        Inl e \<Rightarrow> False
      | Inr (status, outs) \<Rightarrow>
          status \<notin> set [''completed'', ''succeeded''] \<and> status \<notin> set [''failed'', ''error''])"

fun check_time :: "poll_env \<Rightarrow> nat \<Rightarrow> nat \<Rightarrow> nat \<Rightarrow> nat" where
  \<comment> \<open>the clock at the loop test \<open>n\<close> rounds after the test of round \<open>i\<close> at time \<open>now\<close>,
      when the rounds between go on to the sleep\<close>
  "check_time env now i 0 = now"
| "check_time env now i (Suc n) = check_time env (now + delay env i + 7000) (Suc i) n"

definition still_running :: "result_json http_reply" where
  "still_running = OkJson \<lparr>r_status = Some ''Processing'', r_output = None, r_outputs = None\<rparr>"

definition env_error :: poll_env where
  \<comment> \<open>the job is still running at the first status request; the second request fails\<close>
  "env_error = \<lparr>replies = (\<lambda>i. if i = 0 then still_running else NotOk), delay = (\<lambda>i. 150)\<rparr>"

definition env_late :: poll_env where
  \<comment> \<open>the first status request takes a millisecond more than twenty minutes and finds
      the job completed\<close>
  "env_late =
     \<lparr>replies = (\<lambda>i. OkJson \<lparr>r_status = Some ''completed'', r_output = Some [''u1''],
                                r_outputs = None\<rparr>),
      delay = (\<lambda>i. 1200001)\<rparr>"

definition env_slow :: poll_env where
  \<comment> \<open>the job never leaves \<open>processing\<close>, and each status request takes ten minutes\<close>
  "env_slow = \<lparr>replies = (\<lambda>i. still_running), delay = (\<lambda>i. 600000)\<rparr>"

section \<open>Properties of the id-set encoding\<close>

lemma set_foldl_set_add: "set (foldl set_add acc xs) = set acc \<union> set xs"
  by (induction xs arbitrary: acc) (auto simp: set_add_def)


lemma set_new_Set: "set (new_Set xs) = set xs"
  by (simp add: new_Set_def set_foldl_set_add)





lemma split_from_append:
  "split_from c cur (a @ c # b) = split_from c cur a @ split_from c [] b"
  by (induction a arbitrary: cur) auto

lemma split_from_cur:
  "split_from c cur r = (cur @ hd (split_from c [] r)) # tl (split_from c [] r)"
proof (induction r arbitrary: cur)
  case Nil
  show ?case by simp
next
  case (Cons x r)
  show ?case
  proof (cases "x = c")
    case True
    then show ?thesis by simp
  next
    case False
    have "split_from c cur (x # r) = split_from c (cur @ [x]) r" using False by simp
    also have "\<dots> = ((cur @ [x]) @ hd (split_from c [] r)) # tl (split_from c [] r)"
      by (rule Cons.IH)
    also have "\<dots> = (cur @ hd (split_from c [] (x # r))) # tl (split_from c [] (x # r))"
      using False Cons.IH [of "[x]"] by simp
    finally show ?thesis .
  qed
qed

lemma split_from_no_sep: "c \<notin> set s \<Longrightarrow> split_from c cur s = [cur @ s]"
  by (induction s arbitrary: cur) auto

lemma split_from_pieces: "c \<notin> set cur \<Longrightarrow> w \<in> set (split_from c cur s) \<Longrightarrow> c \<notin> set w"
proof (induction s arbitrary: cur)
  case Nil
  then show ?case by simp
next
  case (Cons x s)
  show ?case
  proof (cases "x = c")
    case True
    with Cons.prems have "w = cur \<or> w \<in> set (split_from c [] s)" by simp
    then show ?thesis using Cons.prems(1) Cons.IH [of "[]"] by auto
  next
    case False
    with Cons.prems have "w \<in> set (split_from c (cur @ [x]) s)" by simp
    moreover have "c \<notin> set (cur @ [x])" using False Cons.prems(1) by auto
    ultimately show ?thesis by (rule Cons.IH [rotated])
  qed
qed

lemma is_ws_space: "is_ws CHR '' ''"
  by (simp add: is_ws_def)

lemma trim_Nil: "trim [] = []"
  by (simp add: trim_def)

lemma trim_ws_Cons: "is_ws c \<Longrightarrow> trim (c # s) = trim s"
  by (simp add: trim_def)

lemma trim_ends:
  assumes "trim s \<noteq> []"
  shows "\<not> is_ws (hd (trim s)) \<and> \<not> is_ws (last (trim s))"
proof -
  define u where "u = dropWhile is_ws s"
  define v where "v = dropWhile is_ws (rev u)"
  have t: "trim s = rev v" by (simp add: trim_def u_def v_def)
  with assms have v: "v \<noteq> []" by simp
  then have u: "u \<noteq> []" by (auto simp: v_def)
  have "\<not> is_ws (hd v)" using v unfolding v_def by (rule hd_dropWhile)
  then have l: "\<not> is_ws (last (trim s))" using v by (simp add: t last_rev)
  obtain p where p: "rev u = p @ v"
    unfolding v_def by (metis takeWhile_dropWhile_id)
  then have "last (rev u) = last v" using v by simp
  then have "hd u = last v" using u by (simp add: last_rev)
  moreover have "\<not> is_ws (hd u)" using u unfolding u_def by (rule hd_dropWhile)
  ultimately show ?thesis using l v by (simp add: t hd_rev)
qed

lemma trim_clean:
  assumes "s \<noteq> []" "\<not> is_ws (hd s)" "\<not> is_ws (last s)"
  shows "trim s = s"
proof -
  have a: "dropWhile is_ws s = s" using assms by (cases s) auto
  have "rev s \<noteq> []" "\<not> is_ws (hd (rev s))" using assms by (simp_all add: hd_rev)
  then have "dropWhile is_ws (rev s) = rev s" by (cases "rev s") auto
  then show ?thesis by (simp add: trim_def a)
qed

lemma trim_idem: "trim (trim s) = trim s"
proof (cases "trim s = []")
  case True
  then show ?thesis by (simp add: trim_Nil)
next
  case False
  then show ?thesis using trim_ends [OF False] by (intro trim_clean) auto
qed

lemma set_trim: "set (trim s) \<subseteq> set s"
proof -
  have "set (trim s) \<subseteq> set (rev (dropWhile is_ws s))"
    unfolding trim_def set_rev by (auto dest: set_dropWhileD)
  also have "\<dots> \<subseteq> set s" unfolding set_rev by (auto dest: set_dropWhileD)
  finally show ?thesis .
qed


lemma split_from_nonempty: "split_from c cur s \<noteq> []"
  by (induction s arbitrary: cur) auto

lemma split_append: "split c (a @ c # b) = split c a @ split c b"
  by (simp add: split_def split_from_append)

lemma map_trim_split_ws:
  assumes "is_ws x" "x \<noteq> c"
  shows "map trim (split c (x # r)) = map trim (split c r)"
proof -
  have "split c (x # r) = split_from c [x] r" using assms by (simp add: split_def)
  also have "\<dots> = (x # hd (split c r)) # tl (split c r)"
    using split_from_cur [of c "[x]" r] by (simp add: split_def)
  finally have "map trim (split c (x # r)) = trim (hd (split c r)) # map trim (tl (split c r))"
    using assms by (simp add: trim_ws_Cons)
  also have "\<dots> = map trim (hd (split c r) # tl (split c r))" by simp
  also have "hd (split c r) # tl (split c r) = split c r"
    using split_from_nonempty [of c "[]" r] by (simp add: split_def)
  finally show ?thesis .
qed

lemma id_tokens_Nil: "id_tokens [] = []"
  by (simp add: id_tokens_def split_def trim_Nil truthy_def)

lemma id_tokens_append: "id_tokens (a @ CHR '','' # b) = id_tokens a @ id_tokens b"
  by (simp add: id_tokens_def split_append)

lemma id_tokens_space: "id_tokens (CHR '' '' # r) = id_tokens r"
  by (simp add: id_tokens_def map_trim_split_ws is_ws_space)

lemma id_tokens_join: "id_tokens (join '', '' xs) = concat (map id_tokens xs)"
proof (induction "'', ''" xs rule: join.induct)
  case 1
  show ?case by (simp add: id_tokens_Nil)
next
  case (2 x)
  show ?case by simp
next
  case (3 x y ys)
  have "id_tokens (join '', '' (x # y # ys)) = id_tokens (x @ CHR '','' # CHR '' '' # join '', '' (y # ys))"
    by simp
  also have "\<dots> = id_tokens x @ id_tokens (join '', '' (y # ys))"
    by (simp only: id_tokens_append id_tokens_space)
  finally show ?case using 3 by simp
qed

lemma id_tokens_no_comma:
  "CHR '','' \<notin> set l \<Longrightarrow> id_tokens l = (if trim l = [] then [] else [trim l])"
  by (simp add: id_tokens_def split_def split_from_no_sep truthy_def)

lemma id_tokens_token:
  assumes "x \<in> set (id_tokens s)"
  shows "id_tokens x = [x]"
proof -
  from assms obtain w where w: "w \<in> set (split CHR '','' s)" and x: "x = trim w" and ne: "x \<noteq> []"
    by (auto simp: id_tokens_def truthy_def)
  have "CHR '','' \<notin> set w"
    using w split_from_pieces [of "CHR '',''" "[]" w s] by (simp add: split_def)
  then have "CHR '','' \<notin> set x" using set_trim [of w] x by auto
  then show ?thesis using ne x by (simp add: id_tokens_no_comma trim_idem)
qed

lemma concat_id_tokens_tokens:
  "set xs \<subseteq> set (id_tokens s) \<Longrightarrow> concat (map id_tokens xs) = xs"
  by (induction xs) (auto simp: id_tokens_token)

lemma or_empty_Some: "or_empty (Some s) = s"
  by (simp add: or_empty_def)

lemma set_parseIds_mergeIds:
  "set (parseIds (Some (mergeIds s L))) = set (parseIds s) \<union> (\<Union>l\<in>set L. set (id_tokens l))"
proof -
  let ?acc = "new_Set (id_tokens (or_empty s))"
  have "set (parseIds (Some (mergeIds s L))) = (\<Union>x\<in>set ?acc \<union> set L. set (id_tokens x))"
    by (simp add: parseIds_def mergeIds_def or_empty_Some set_new_Set id_tokens_join
        set_foldl_set_add)
  also have "\<dots> = (\<Union>x\<in>set ?acc. set (id_tokens x)) \<union> (\<Union>l\<in>set L. set (id_tokens l))"
    by auto
  also have "(\<Union>x\<in>set ?acc. set (id_tokens x)) = set (id_tokens (or_empty s))"
    by (auto simp: set_new_Set id_tokens_token)
  finally show ?thesis by (simp add: parseIds_def set_new_Set)
qed







section \<open>Properties of the reconciler\<close>

lemma patch_fields_reconcile:
  "patch_fields (no_fields\<lparr>Output := Some out, Seen_IDs := Some seen, Failed_IDs := fl,
                   Last_Update := Some t\<rparr>) f =
   f\<lparr>Output := Some out, Seen_IDs := Some seen, Failed_IDs := override fl (Failed_IDs f),
     Last_Update := Some t\<rparr>"
  by (simp add: patch_fields_def no_fields_def override_def)

lemma patch_fields_completed:
  "patch_fields (no_fields\<lparr>Status := Some s, Completed_At := Some t\<rparr>) f =
   f\<lparr>Status := Some s, Completed_At := Some t\<rparr>"
  by (simp add: patch_fields_def no_fields_def override_def)

lemma override_same: "override v v = v"
  by (cases v) (simp_all add: override_def)

lemma override_Some: "override (Some x) v = Some x"
  by (simp add: override_def)

lemma markCompleted_Some:
  assumes "st recordId = Some f"
  shows "markCompleted now st recordId =
         Inr (if jobIds f \<noteq> {} \<and> jobIds f \<subseteq> seenIds f
              then st(recordId \<mapsto> f\<lparr>Status := Some ''completed'', Completed_At := Some now\<rparr>)
              else st)"
  using assms
  by (auto simp: markCompleted_def atGet_def atPatch_def patch_fields_completed Let_def
      jobIds_def seenIds_def list_all_iff)

lemma markCompleted_None: "st recordId = None \<Longrightarrow> markCompleted now st recordId = Inl AirtableGetFailed"
  by (simp add: markCompleted_def atGet_def)

lemma appendOutputs_None:
  "st recordId = None \<Longrightarrow> appendOutputs t_upd t_done st recordId a = Inl AirtableGetFailed"
  by (simp add: appendOutputs_def atGet_def)

lemma appendOutputs_Some:
  assumes "st recordId = Some f"
  shows "\<exists>f'. appendOutputs t_upd t_done st recordId a = Inr (st(recordId \<mapsto> f')) \<and>
    Output f' = Some (prev_outputs f @ output_entries (requestId a) (outputs a)) \<and>
    Seen_IDs f' = Some (mergeIds (Seen_IDs f) [requestId a]) \<and>
    Failed_IDs f' = (if failed a then Some (mergeIds (Failed_IDs f) [requestId a]) else Failed_IDs f) \<and>
    Last_Update f' = Some t_upd \<and>
    Request_IDs f' = Request_IDs f \<and>
    (if jobIds f \<noteq> {} \<and> jobIds f \<subseteq> set (parseIds (Some (mergeIds (Seen_IDs f) [requestId a])))
     then Status f' = Some ''completed'' \<and> Completed_At f' = Some t_done
     else Status f' = Status f \<and> Completed_At f' = Completed_At f) \<and>
    Prompt f' = Prompt f \<and> Subject f' = Subject f \<and> Size f' = Size f \<and>
    Batch_Count f' = Batch_Count f \<and> Model f' = Model f \<and> fields.more f' = fields.more f"
proof -
  let ?f1 = "f\<lparr>Output := Some (prev_outputs f @ output_entries (requestId a) (outputs a)),
               Seen_IDs := Some (mergeIds (Seen_IDs f) [requestId a]),
               Failed_IDs := override (if failed a then Some (mergeIds (Failed_IDs f) [requestId a])
                                       else Failed_IDs f) (Failed_IDs f),
               Last_Update := Some t_upd\<rparr>"
  let ?st1 = "st(recordId \<mapsto> ?f1)"
  have 1: "appendOutputs t_upd t_done st recordId a = markCompleted t_done ?st1 recordId"
    using assms
    by (simp add: appendOutputs_def atGet_def atPatch_def Let_def patch_fields_reconcile
        prev_outputs_def)
  have 2: "?st1 recordId = Some ?f1" by simp
  have 3: "markCompleted t_done ?st1 recordId =
         Inr (if jobIds ?f1 \<noteq> {} \<and> jobIds ?f1 \<subseteq> seenIds ?f1
              then ?st1(recordId \<mapsto> ?f1\<lparr>Status := Some ''completed'', Completed_At := Some t_done\<rparr>)
              else ?st1)"
    using 2 by (rule markCompleted_Some)
  let ?done = "jobIds ?f1 \<noteq> {} \<and> jobIds ?f1 \<subseteq> seenIds ?f1"
  let ?f2 = "if ?done then ?f1\<lparr>Status := Some ''completed'', Completed_At := Some t_done\<rparr> else ?f1"
  have 4: "appendOutputs t_upd t_done st recordId a = Inr (st(recordId \<mapsto> ?f2))"
    unfolding 1 3 by simp
  have 5: "?done \<longleftrightarrow> jobIds f \<noteq> {} \<and>
             jobIds f \<subseteq> set (parseIds (Some (mergeIds (Seen_IDs f) [requestId a])))"
    by (simp add: jobIds_def seenIds_def)
  show ?thesis
    apply (rule exI [of _ ?f2])
    apply (rule conjI [OF 4])
    unfolding 5
    apply (simp add: override_same override_Some)
    done
qed

lemma appendOutputs_sets:
  assumes "st recordId = Some f"
  shows "\<exists>f'. appendOutputs t_upd t_done st recordId a = Inr (st(recordId \<mapsto> f')) \<and>
    Output f' = Some (prev_outputs f @ output_entries (requestId a) (outputs a)) \<and>
    seenIds f' = seenIds f \<union> set (id_tokens (requestId a)) \<and>
    failedIds f' = (if failed a then failedIds f \<union> set (id_tokens (requestId a)) else failedIds f) \<and>
    jobIds f' = jobIds f \<and>
    (if jobIds f \<noteq> {} \<and> jobIds f \<subseteq> seenIds f'
     then Status f' = Some ''completed'' \<and> Completed_At f' = Some t_done
     else Status f' = Status f \<and> Completed_At f' = Completed_At f)"
proof -
  from appendOutputs_Some [where st = st and recordId = recordId, OF assms, of t_upd t_done a]
  obtain f' where f': "appendOutputs t_upd t_done st recordId a = Inr (st(recordId \<mapsto> f'))"
    "Output f' = Some (prev_outputs f @ output_entries (requestId a) (outputs a))"
    "Seen_IDs f' = Some (mergeIds (Seen_IDs f) [requestId a])"
    "Failed_IDs f' = (if failed a then Some (mergeIds (Failed_IDs f) [requestId a]) else Failed_IDs f)"
    "Request_IDs f' = Request_IDs f"
    "if jobIds f \<noteq> {} \<and> jobIds f \<subseteq> set (parseIds (Some (mergeIds (Seen_IDs f) [requestId a])))
     then Status f' = Some ''completed'' \<and> Completed_At f' = Some t_done
     else Status f' = Status f \<and> Completed_At f' = Completed_At f"
    by blast
  have s: "seenIds f' = seenIds f \<union> set (id_tokens (requestId a))"
    by (simp add: seenIds_def f'(3) set_parseIds_mergeIds)
  have fl: "failedIds f' = (if failed a then failedIds f \<union> set (id_tokens (requestId a)) else failedIds f)"
    by (simp add: failedIds_def f'(4) set_parseIds_mergeIds)
  have j: "jobIds f' = jobIds f" by (simp add: jobIds_def f'(5))
  have c: "set (parseIds (Some (mergeIds (Seen_IDs f) [requestId a]))) = seenIds f'"
    by (simp add: seenIds_def f'(3))
  show ?thesis
    using f'(1,2) s fl j f'(6) unfolding c by blast
qed

text \<open>
  Claim C1, as amended. Two reconciler calls with the same batch, job id and outcome
  leave the same seenIds and failedIds as one call. The outputs are the same only when
  the outcome carries none: the second call appends the outcome's outputs again.
\<close>

theorem appendOutputs_twice:
  assumes "st recordId = Some f"
  shows "\<exists>st1 f1 st2 f2.
           reconcileAll st recordId [(t1, t2, a)] = Inr st1 \<and> st1 recordId = Some f1 \<and>
           reconcileAll st recordId [(t1, t2, a), (t3, t4, a)] = Inr st2 \<and> st2 recordId = Some f2 \<and>
           seenIds f2 = seenIds f1 \<and> failedIds f2 = failedIds f1 \<and>
           Output f2 = Some (prev_outputs f1 @ output_entries (requestId a) (outputs a)) \<and>
           (outputs a = [] \<longrightarrow> Output f2 = Output f1)"
proof -
  from appendOutputs_sets [where st = st and recordId = recordId, OF assms, of t1 t2 a]
  obtain f1 where 1: "appendOutputs t1 t2 st recordId a = Inr (st(recordId \<mapsto> f1))"
    and o1: "Output f1 = Some (prev_outputs f @ output_entries (requestId a) (outputs a))"
    and s1: "seenIds f1 = seenIds f \<union> set (id_tokens (requestId a))"
    and x1: "failedIds f1 =
      (if failed a then failedIds f \<union> set (id_tokens (requestId a)) else failedIds f)"
    by blast
  let ?st1 = "st(recordId \<mapsto> f1)"
  have h1: "?st1 recordId = Some f1" by simp
  from appendOutputs_sets [where st = ?st1 and recordId = recordId, OF h1, of t3 t4 a]
  obtain f2 where 2: "appendOutputs t3 t4 ?st1 recordId a = Inr (?st1(recordId \<mapsto> f2))"
    and o2: "Output f2 = Some (prev_outputs f1 @ output_entries (requestId a) (outputs a))"
    and s2: "seenIds f2 = seenIds f1 \<union> set (id_tokens (requestId a))"
    and x2: "failedIds f2 =
      (if failed a then failedIds f1 \<union> set (id_tokens (requestId a)) else failedIds f1)"
    by blast
  have a: "reconcileAll st recordId [(t1, t2, a)] = Inr ?st1" by (simp add: 1)
  have b: "reconcileAll st recordId [(t1, t2, a), (t3, t4, a)] = Inr (?st1(recordId \<mapsto> f2))"
    by (simp add: 1 2)
  have s: "seenIds f2 = seenIds f1" using s1 s2 by auto
  have x: "failedIds f2 = failedIds f1" using x1 x2 by auto
  have e: "outputs a = [] \<longrightarrow> Output f2 = Output f1"
    by (simp add: o2 o1 output_entries_def prev_outputs_def)
  show ?thesis
    using a h1 b s x o2 e by (intro exI [of _ ?st1] exI [of _ f1] exI [of _ "?st1(recordId \<mapsto> f2)"] exI [of _ f2]) simp
qed

text \<open>
  The theorem at the batch \<open>rec1\<close> with jobs \<open>A\<close> and \<open>B\<close>, for the failure of \<open>B\<close>
  reported twice.
\<close>

theorem appendOutputs_twice_witness:
  "store_with ''A, B'' ''rec1'' = Some (batch_with ''A, B'') \<and>
   (\<exists>st1 f1 st2 f2.
      reconcileAll (store_with ''A, B'') ''rec1'' [(1, 2, failure_args ''B'')] = Inr st1 \<and>
      st1 ''rec1'' = Some f1 \<and>
      reconcileAll (store_with ''A, B'') ''rec1''
        [(1, 2, failure_args ''B''), (3, 4, failure_args ''B'')] = Inr st2 \<and>
      st2 ''rec1'' = Some f2 \<and>
      seenIds f2 = seenIds f1 \<and> failedIds f2 = failedIds f1 \<and> Output f2 = Output f1)"
proof -
  have h: "store_with ''A, B'' ''rec1'' = Some (batch_with ''A, B'')"
    by (simp add: store_with_def)
  have e: "outputs (failure_args ''B'') = []" by (simp add: failure_args_def)
  from appendOutputs_twice [where st = "store_with ''A, B''" and recordId = "''rec1''", OF h,
      of 1 2 "failure_args ''B''" 3 4]
  show ?thesis using h e by auto
qed

text \<open>
  Claim C1 as stated fails for a success that is reported twice: the output of job \<open>A\<close>
  is in the list once after one call and twice after two.
\<close>

theorem appendOutputs_twice_counterexample:
  "field_of Output ''rec1''
     (reconcileAll (store_with ''A, B'') ''rec1'' [(1, 2, success_args ''A'' [''u1''])]) =
     Some (Some [\<lparr>url = ''u1'', filename = ''var_A_0.png''\<rparr>]) \<and>
   field_of Output ''rec1''
     (reconcileAll (store_with ''A, B'') ''rec1''
        [(1, 2, success_args ''A'' [''u1'']), (3, 4, success_args ''A'' [''u1''])]) =
     Some (Some [\<lparr>url = ''u1'', filename = ''var_A_0.png''\<rparr>,
                 \<lparr>url = ''u1'', filename = ''var_A_0.png''\<rparr>]) \<and>
   field_of Output ''rec1''
     (reconcileAll (store_with ''A, B'') ''rec1''
        [(1, 2, success_args ''A'' [''u1'']), (3, 4, success_args ''A'' [''u1''])]) \<noteq>
   field_of Output ''rec1''
     (reconcileAll (store_with ''A, B'') ''rec1'' [(1, 2, success_args ''A'' [''u1''])])"
  by code_simp

text \<open>
  Claim C2, as amended. A reconciler call on a batch whose status is \<open>completed\<close> leaves
  the status \<open>completed\<close>. It leaves completedAt as it was when jobIds is empty or not
  within seenIds after the call, and sets it to the time of the call otherwise.
\<close>

theorem completed_stays_completed:
  assumes "st recordId = Some f" and "Status f = Some ''completed''"
  shows "\<exists>st' f'. appendOutputs t_upd t_done st recordId a = Inr st' \<and> st' recordId = Some f' \<and>
           Status f' = Some ''completed'' \<and>
           Completed_At f' =
             (if jobIds f' \<noteq> {} \<and> jobIds f' \<subseteq> seenIds f' then Some t_done else Completed_At f)"
proof -
  from appendOutputs_sets [where st = st and recordId = recordId, OF assms(1), of t_upd t_done a]
  obtain f' where 1: "appendOutputs t_upd t_done st recordId a = Inr (st(recordId \<mapsto> f'))"
    and j: "jobIds f' = jobIds f"
    and c: "if jobIds f \<noteq> {} \<and> jobIds f \<subseteq> seenIds f'
            then Status f' = Some ''completed'' \<and> Completed_At f' = Some t_done
            else Status f' = Status f \<and> Completed_At f' = Completed_At f"
    by blast
  have "Status f' = Some ''completed''" using c assms(2) by (auto split: if_splits)
  moreover have "Completed_At f' =
      (if jobIds f' \<noteq> {} \<and> jobIds f' \<subseteq> seenIds f' then Some t_done else Completed_At f)"
    using c unfolding j by (auto split: if_splits)
  ultimately show ?thesis
    using 1 by (intro exI [of _ "st(recordId \<mapsto> f')"] exI [of _ f']) simp
qed

text \<open>
  The batch \<open>rec1\<close> with jobs \<open>A\<close> and \<open>B\<close>, completed at time 4, as the success of \<open>A\<close>
  and the failure of \<open>B\<close> leave it.
\<close>

theorem completed_stays_completed_witness:
  "store_done ''rec1'' = Some batch_done \<and> Status batch_done = Some ''completed'' \<and>
   (\<exists>st' f'. appendOutputs 5 6 store_done ''rec1'' (failure_args ''B'') = Inr st' \<and>
      st' ''rec1'' = Some f' \<and> Status f' = Some ''completed'' \<and>
      Completed_At f' =
        (if jobIds f' \<noteq> {} \<and> jobIds f' \<subseteq> seenIds f' then Some 6 else Completed_At batch_done))"
proof -
  have h1: "store_done ''rec1'' = Some batch_done" by (simp add: store_done_def)
  have h2: "Status batch_done = Some ''completed''" by (simp add: batch_done_def)
  from completed_stays_completed [where st = store_done and recordId = "''rec1''", OF h1 h2,
      of 5 6 "failure_args ''B''"]
  show ?thesis using h1 h2 by simp
qed

text \<open>
  Claim C2 as stated fails for the last job reported twice: the batch is completed at
  time 4 by the first report of \<open>B\<close>, and the second report moves completedAt to 6.
\<close>

theorem completedAt_restamped_counterexample:
  "field_of Status ''rec1''
     (reconcileAll (store_with ''A, B'') ''rec1''
        [(1, 2, success_args ''A'' [''u1'']), (3, 4, failure_args ''B'')]) =
     Some (Some ''completed'') \<and>
   field_of Completed_At ''rec1''
     (reconcileAll (store_with ''A, B'') ''rec1''
        [(1, 2, success_args ''A'' [''u1'']), (3, 4, failure_args ''B'')]) =
     Some (Some 4) \<and>
   field_of Completed_At ''rec1''
     (reconcileAll (store_with ''A, B'') ''rec1''
        [(1, 2, success_args ''A'' [''u1'']), (3, 4, failure_args ''B''),
         (5, 6, failure_args ''B'')]) =
     Some (Some 6)"
  by code_simp

lemma reconcileAll_invariants:
  assumes "st recordId = Some f"
  shows "\<exists>st' f'. reconcileAll st recordId cs = Inr st' \<and> st' recordId = Some f' \<and>
           jobIds f' = jobIds f \<and>
           seenIds f' = seenIds f \<union> (\<Union>c\<in>set cs. set (id_tokens (requestId (snd (snd c))))) \<and>
           (failedIds f \<subseteq> seenIds f \<longrightarrow> failedIds f' \<subseteq> seenIds f')"
  using assms
proof (induction cs arbitrary: st f)
  case Nil
  then show ?case by simp
next
  case (Cons c cs)
  obtain t1 t2 a where c: "c = (t1, t2, a)" by (cases c) auto
  from appendOutputs_sets [where st = st and recordId = recordId, OF Cons.prems, of t1 t2 a]
  obtain f1 where 1: "appendOutputs t1 t2 st recordId a = Inr (st(recordId \<mapsto> f1))"
    and s1: "seenIds f1 = seenIds f \<union> set (id_tokens (requestId a))"
    and x1: "failedIds f1 =
      (if failed a then failedIds f \<union> set (id_tokens (requestId a)) else failedIds f)"
    and j1: "jobIds f1 = jobIds f"
    by blast
  let ?st1 = "st(recordId \<mapsto> f1)"
  have h1: "?st1 recordId = Some f1" by simp
  from Cons.IH [where st = ?st1 and f = f1, OF h1]
  obtain st' f' where 2: "reconcileAll ?st1 recordId cs = Inr st'" "st' recordId = Some f'"
    and j2: "jobIds f' = jobIds f1"
    and s2: "seenIds f' = seenIds f1 \<union> (\<Union>c\<in>set cs. set (id_tokens (requestId (snd (snd c)))))"
    and x2: "failedIds f1 \<subseteq> seenIds f1 \<longrightarrow> failedIds f' \<subseteq> seenIds f'"
    by blast
  have r: "reconcileAll st recordId (c # cs) = Inr st'" by (simp add: c 1 2(1))
  have s: "seenIds f' =
      seenIds f \<union> (\<Union>c\<in>set (c # cs). set (id_tokens (requestId (snd (snd c)))))"
    using s1 s2 c by auto
  have x: "failedIds f \<subseteq> seenIds f \<longrightarrow> failedIds f' \<subseteq> seenIds f'"
    using x1 s1 x2 by (auto split: if_splits)
  show ?case using r 2(2) j1 j2 s x by (intro exI [of _ st'] exI [of _ f']) simp
qed

text \<open>
  Claim C3, as amended. Every sequence of reconciler calls on a batch keeps failedIds
  within seenIds. It keeps seenIds within jobIds when the id of every call is in jobIds:
  the reconciler adds the id it is given to seenIds without looking at jobIds.
\<close>

theorem reconcileAll_subsets:
  assumes "st recordId = Some f"
  shows "\<exists>st' f'. reconcileAll st recordId cs = Inr st' \<and> st' recordId = Some f' \<and>
           (failedIds f \<subseteq> seenIds f \<longrightarrow> failedIds f' \<subseteq> seenIds f') \<and>
           (seenIds f \<subseteq> jobIds f \<and>
            list_all (\<lambda>(t_upd, t_done, a). set (id_tokens (requestId a)) \<subseteq> jobIds f) cs
              \<longrightarrow> seenIds f' \<subseteq> jobIds f')"
proof -
  from reconcileAll_invariants [where st = st and recordId = recordId, OF assms, of cs]
  obtain st' f' where 1: "reconcileAll st recordId cs = Inr st'" "st' recordId = Some f'"
    and j: "jobIds f' = jobIds f"
    and s: "seenIds f' = seenIds f \<union> (\<Union>c\<in>set cs. set (id_tokens (requestId (snd (snd c)))))"
    and x: "failedIds f \<subseteq> seenIds f \<longrightarrow> failedIds f' \<subseteq> seenIds f'"
    by blast
  have "seenIds f \<subseteq> jobIds f \<and>
        list_all (\<lambda>(t_upd, t_done, a). set (id_tokens (requestId a)) \<subseteq> jobIds f) cs
          \<longrightarrow> seenIds f' \<subseteq> jobIds f'"
    unfolding s j by (fastforce simp: list_all_iff)
  with 1 x show ?thesis by blast
qed

text \<open>
  The theorem at the batch \<open>rec1\<close> with jobs \<open>A\<close> and \<open>B\<close>, for the success of \<open>A\<close>
  and then the failure of \<open>B\<close>.
\<close>

theorem reconcileAll_subsets_witness:
  "store_with ''A, B'' ''rec1'' = Some (batch_with ''A, B'') \<and>
   failedIds (batch_with ''A, B'') \<subseteq> seenIds (batch_with ''A, B'') \<and>
   seenIds (batch_with ''A, B'') \<subseteq> jobIds (batch_with ''A, B'') \<and>
   list_all (\<lambda>(t_upd, t_done, a). set (id_tokens (requestId a)) \<subseteq> jobIds (batch_with ''A, B''))
     [(1, 2, success_args ''A'' [''u1'']), (3, 4, failure_args ''B'')] \<and>
   (\<exists>st' f'. reconcileAll (store_with ''A, B'') ''rec1''
                [(1, 2, success_args ''A'' [''u1'']), (3, 4, failure_args ''B'')] = Inr st' \<and>
      st' ''rec1'' = Some f' \<and> failedIds f' \<subseteq> seenIds f' \<and> seenIds f' \<subseteq> jobIds f')"
proof -
  have h: "store_with ''A, B'' ''rec1'' = Some (batch_with ''A, B'')"
    by (simp add: store_with_def)
  have j: "jobIds (batch_with ''A, B'') = {''A'', ''B''}" by code_simp
  have s: "seenIds (batch_with ''A, B'') = {}" by code_simp
  have x: "failedIds (batch_with ''A, B'') = {}" by code_simp
  have a: "id_tokens (requestId (success_args ''A'' [''u1''])) = [''A'']" by code_simp
  have b: "id_tokens (requestId (failure_args ''B'')) = [''B'']" by code_simp
  have l: "list_all (\<lambda>(t_upd, t_done, a). set (id_tokens (requestId a)) \<subseteq> jobIds (batch_with ''A, B''))
     [(1, 2, success_args ''A'' [''u1'']), (3, 4, failure_args ''B'')]"
    by (simp add: a b j)
  from reconcileAll_subsets [where st = "store_with ''A, B''" and recordId = "''rec1''", OF h,
      of "[(1, 2, success_args ''A'' [''u1'']), (3, 4, failure_args ''B'')]"]
  show ?thesis using h l unfolding s x by auto
qed

text \<open>
  Claim C3 as stated fails for a push notification that arrives while the jobs are still
  being submitted: the record has been reset, Request IDs is still empty, and the call for
  job \<open>A\<close> puts \<open>A\<close> into seenIds.
\<close>

theorem seenIds_outside_jobIds_counterexample:
  "field_of seenIds ''rec1''
     (appendOutputs 1 2 (store_with '''') ''rec1'' (success_args ''A'' [''u1''])) = Some {''A''} \<and>
   field_of jobIds ''rec1''
     (appendOutputs 1 2 (store_with '''') ''rec1'' (success_args ''A'' [''u1''])) = Some {}"
  by code_simp

text \<open>
  Claim C4. Take a batch whose status is \<open>completed\<close> only if jobIds is non-empty and
  within seenIds, as it is from the reset on. After a reconciler call its status is
  \<open>completed\<close> if and only if jobIds is non-empty and within seenIds. A batch with empty
  jobIds keeps its status, so one that is \<open>processing\<close> stays \<open>processing\<close>.
\<close>

theorem completed_iff_all_seen:
  assumes "st recordId = Some f"
    and "Status f = Some ''completed'' \<longrightarrow> jobIds f \<noteq> {} \<and> jobIds f \<subseteq> seenIds f"
  shows "\<exists>st' f'. appendOutputs t_upd t_done st recordId a = Inr st' \<and> st' recordId = Some f' \<and>
           (Status f' = Some ''completed'' \<longleftrightarrow> jobIds f' \<noteq> {} \<and> jobIds f' \<subseteq> seenIds f') \<and>
           (jobIds f = {} \<longrightarrow> Status f' = Status f)"
proof -
  from appendOutputs_sets [where st = st and recordId = recordId, OF assms(1), of t_upd t_done a]
  obtain f' where 1: "appendOutputs t_upd t_done st recordId a = Inr (st(recordId \<mapsto> f'))"
    and j: "jobIds f' = jobIds f"
    and s: "seenIds f' = seenIds f \<union> set (id_tokens (requestId a))"
    and c: "if jobIds f \<noteq> {} \<and> jobIds f \<subseteq> seenIds f'
            then Status f' = Some ''completed'' \<and> Completed_At f' = Some t_done
            else Status f' = Status f \<and> Completed_At f' = Completed_At f"
    by blast
  have a: "Status f' = Some ''completed'' \<longleftrightarrow> jobIds f' \<noteq> {} \<and> jobIds f' \<subseteq> seenIds f'"
  proof (cases "jobIds f \<noteq> {} \<and> jobIds f \<subseteq> seenIds f'")
    case True
    then show ?thesis using c j by simp
  next
    case False
    then have "Status f' = Status f" using c by simp
    moreover have "Status f \<noteq> Some ''completed''"
    proof
      assume "Status f = Some ''completed''"
      then have "jobIds f \<noteq> {} \<and> jobIds f \<subseteq> seenIds f" using assms(2) by simp
      then show False using False s by auto
    qed
    ultimately show ?thesis using False j by simp
  qed
  have b: "jobIds f = {} \<longrightarrow> Status f' = Status f" using c by simp
  show ?thesis
    using 1 a b by (intro exI [of _ "st(recordId \<mapsto> f')"] exI [of _ f']) simp
qed

text \<open>
  The theorem at the batch \<open>rec1\<close> with the one job \<open>A\<close>, for the success of \<open>A\<close>: the
  batch becomes \<open>completed\<close>.
\<close>

theorem completed_iff_all_seen_witness:
  "store_with ''A'' ''rec1'' = Some (batch_with ''A'') \<and>
   Status (batch_with ''A'') \<noteq> Some ''completed'' \<and>
   field_of Status ''rec1''
     (appendOutputs 1 2 (store_with ''A'') ''rec1'' (success_args ''A'' [''u1''])) =
     Some (Some ''completed'') \<and>
   (\<exists>st' f'. appendOutputs 1 2 (store_with ''A'') ''rec1'' (success_args ''A'' [''u1'']) = Inr st' \<and>
      st' ''rec1'' = Some f' \<and>
      (Status f' = Some ''completed'') = (jobIds f' \<noteq> {} \<and> jobIds f' \<subseteq> seenIds f'))"
proof -
  have h1: "store_with ''A'' ''rec1'' = Some (batch_with ''A'')" by (simp add: store_with_def)
  have h2: "Status (batch_with ''A'') \<noteq> Some ''completed''" by (simp add: batch_with_def)
  then have h3: "Status (batch_with ''A'') = Some ''completed'' \<longrightarrow>
      jobIds (batch_with ''A'') \<noteq> {} \<and> jobIds (batch_with ''A'') \<subseteq> seenIds (batch_with ''A'')"
    by simp
  have v: "field_of Status ''rec1''
     (appendOutputs 1 2 (store_with ''A'') ''rec1'' (success_args ''A'' [''u1''])) =
     Some (Some ''completed'')"
    by code_simp
  from completed_iff_all_seen [where st = "store_with ''A''" and recordId = "''rec1''", OF h1 h3,
      of 1 2 "success_args ''A'' [''u1'']"]
  show ?thesis using h1 h2 v by blast
qed

text \<open>
  Claim C9. A reconciler call that succeeds leaves every other record as it was, and in
  the batch's record it leaves Request IDs and the input fields (prompt, subject, size,
  batch count, model) as they were: the record after the call is the record before it
  with new values for Seen IDs, Failed IDs, Output, Last Update, Status and Completed At
  only.
\<close>

theorem appendOutputs_frame:
  assumes "appendOutputs t_upd t_done st recordId a = Inr st'"
  shows "(\<forall>r. r \<noteq> recordId \<longrightarrow> st' r = st r) \<and>
         (\<exists>f f'. st recordId = Some f \<and> st' recordId = Some f' \<and>
            Request_IDs f' = Request_IDs f \<and> Prompt f' = Prompt f \<and>
            Subject f' = Subject f \<and> Size f' = Size f \<and>
            Batch_Count f' = Batch_Count f \<and> Model f' = Model f \<and>
            f' = f\<lparr>Seen_IDs := Seen_IDs f', Failed_IDs := Failed_IDs f', Output := Output f',
                    Last_Update := Last_Update f', Status := Status f',
                    Completed_At := Completed_At f'\<rparr>)"
proof (cases "st recordId")
  case None
  then show ?thesis using assms by (simp add: appendOutputs_None)
next
  case (Some f)
  from appendOutputs_Some [where st = st and recordId = recordId, OF Some, of t_upd t_done a]
  obtain f' where 1: "appendOutputs t_upd t_done st recordId a = Inr (st(recordId \<mapsto> f'))"
    and k: "Request_IDs f' = Request_IDs f" "Prompt f' = Prompt f" "Subject f' = Subject f"
      "Size f' = Size f" "Batch_Count f' = Batch_Count f" "Model f' = Model f"
      "fields.more f' = fields.more f"
    by blast
  have st': "st' = st(recordId \<mapsto> f')" using assms 1 by simp
  have e: "f' = f\<lparr>Seen_IDs := Seen_IDs f', Failed_IDs := Failed_IDs f', Output := Output f',
                    Last_Update := Last_Update f', Status := Status f',
                    Completed_At := Completed_At f'\<rparr>"
    using k by (intro fields.equality) simp_all
  have o: "\<forall>r. r \<noteq> recordId \<longrightarrow> st' r = st r" by (simp add: st')
  have "st recordId = Some f \<and> st' recordId = Some f' \<and>
            Request_IDs f' = Request_IDs f \<and> Prompt f' = Prompt f \<and>
            Subject f' = Subject f \<and> Size f' = Size f \<and>
            Batch_Count f' = Batch_Count f \<and> Model f' = Model f \<and>
            f' = f\<lparr>Seen_IDs := Seen_IDs f', Failed_IDs := Failed_IDs f', Output := Output f',
                    Last_Update := Last_Update f', Status := Status f',
                    Completed_At := Completed_At f'\<rparr>"
    using Some k e by (simp add: st')
  then show ?thesis using o by blast
qed

text \<open>
  The theorem at the store with the batches \<open>rec1\<close> and \<open>rec2\<close>, for the success of job
  \<open>A\<close> of \<open>rec1\<close>.
\<close>

theorem appendOutputs_frame_witness:
  "\<exists>st'. appendOutputs 1 2 ((store_with ''A, B'')(''rec2'' \<mapsto> batch_with ''C'')) ''rec1''
            (success_args ''A'' [''u1'']) = Inr st' \<and>
     st' ''rec2'' = Some (batch_with ''C'') \<and>
     (\<exists>f'. st' ''rec1'' = Some f' \<and>
        Request_IDs f' = Some ''A, B'' \<and> Prompt f' = Some ''a red chair'' \<and>
        Size f' = Some ''1024x1344'' \<and> Batch_Count f' = Some 2)"
proof -
  let ?S = "(store_with ''A, B'')(''rec2'' \<mapsto> batch_with ''C'')"
  have h: "?S ''rec1'' = Some (batch_with ''A, B'')" by (simp add: store_with_def)
  from appendOutputs_Some [where st = ?S and recordId = "''rec1''", OF h,
      of 1 2 "success_args ''A'' [''u1'']"]
  obtain st' where 1: "appendOutputs 1 2 ?S ''rec1'' (success_args ''A'' [''u1'']) = Inr st'"
    by blast
  from appendOutputs_frame [OF 1]
  have o: "\<forall>r. r \<noteq> ''rec1'' \<longrightarrow> st' r = ?S r"
    and "\<exists>f f'. ?S ''rec1'' = Some f \<and> st' ''rec1'' = Some f' \<and>
            Request_IDs f' = Request_IDs f \<and> Prompt f' = Prompt f \<and>
            Subject f' = Subject f \<and> Size f' = Size f \<and>
            Batch_Count f' = Batch_Count f \<and> Model f' = Model f \<and>
            f' = f\<lparr>Seen_IDs := Seen_IDs f', Failed_IDs := Failed_IDs f', Output := Output f',
                    Last_Update := Last_Update f', Status := Status f',
                    Completed_At := Completed_At f'\<rparr>"
    by blast+
  then obtain f' where f': "st' ''rec1'' = Some f'"
    "Request_IDs f' = Request_IDs (batch_with ''A, B'')"
    "Prompt f' = Prompt (batch_with ''A, B'')"
    "Size f' = Size (batch_with ''A, B'')"
    "Batch_Count f' = Batch_Count (batch_with ''A, B'')"
    unfolding h by auto
  have 2: "st' ''rec2'' = Some (batch_with ''C'')" using o by simp
  have "st' ''rec1'' = Some f' \<and>
        Request_IDs f' = Some ''A, B'' \<and> Prompt f' = Some ''a red chair'' \<and>
        Size f' = Some ''1024x1344'' \<and> Batch_Count f' = Some 2"
    using f' by (simp add: batch_with_def)
  with 1 2 show ?thesis by blast
qed

section \<open>Properties of the batch coordinator\<close>

lemma submitVariation_reply_id_Some:
  "reply_id reply = Some rid \<Longrightarrow> submitVariation rm recordId reply = Inr (rid, rm(rid \<mapsto> recordId))"
  by (auto simp: reply_id_def submitVariation_def split: http_reply.splits option.splits if_splits)

lemma submitVariation_reply_id_None:
  "reply_id reply = None \<Longrightarrow> \<exists>e. submitVariation rm recordId reply = Inl e"
  by (auto simp: reply_id_def submitVariation_def split: http_reply.splits option.splits if_splits)

lemma submitLoop_ids:
  "fst (submitLoop submits recordId batchCount i (ids, rm)) =
   ids @ List.map_filter reply_id (map submits [i..<batchCount])"
proof (induction submits recordId batchCount i "(ids, rm)" arbitrary: ids rm rule: submitLoop.induct)
  case (1 submits recordId batchCount i ids rm)
  show ?case
  proof (cases "i < batchCount")
    case False
    then show ?thesis by (simp add: submitLoop.simps [of _ _ _ i] List.map_filter_simps)
  next
    case True
    then have u: "[i..<batchCount] = i # [Suc i..<batchCount]" by (simp add: upt_conv_Cons)
    show ?thesis
    proof (cases "reply_id (submits i)")
      case None
      then obtain e where e: "submitVariation rm recordId (submits i) = Inl e"
        using submitVariation_reply_id_None by blast
      have "submitLoop submits recordId batchCount i (ids, rm) =
            submitLoop submits recordId batchCount (Suc i) (ids, rm)"
        using True e by (simp add: submitLoop.simps [of _ _ _ i])
      then show ?thesis
        using 1(1) [OF True e] None by (simp add: u List.map_filter_simps)
    next
      case (Some rid)
      then have e: "submitVariation rm recordId (submits i) = Inr (rid, rm(rid \<mapsto> recordId))"
        by (rule submitVariation_reply_id_Some)
      have "submitLoop submits recordId batchCount i (ids, rm) =
            submitLoop submits recordId batchCount (Suc i) (ids @ [rid], rm(rid \<mapsto> recordId))"
        using True e by (simp add: submitLoop.simps [of _ _ _ i])
      then show ?thesis
        using 1(2) [OF True e refl] Some by (simp add: u List.map_filter_simps)
    qed
  qed
qed

lemma startVariations_Inr:
  assumes "startVariations beyond now st rm recordId fetched submits = Inr (res, st', rm')"
  shows "\<exists>f f'. st recordId = Some f \<and> st' recordId = Some f' \<and>
           res_requestIds res =
             List.map_filter reply_id (map submits [0..<nat (clampBatchCount (Batch_Count f))]) \<and>
           Request_IDs f' = Some (join '', '' (res_requestIds res)) \<and>
           submitted res = length (res_requestIds res) \<and> Status f' = Some ''processing''"
proof -
  obtain f where f: "st recordId = Some f"
    using assms by (cases "st recordId") (auto simp: startVariations_def atGet_def)
  let ?n = "nat (clampBatchCount (Batch_Count f))"
  obtain ids rm1 where l: "submitLoop submits recordId ?n 0 ([], rm) = (ids, rm1)"
    by (cases "submitLoop submits recordId ?n 0 ([], rm)") auto
  have ids: "ids = List.map_filter reply_id (map submits [0..<?n])"
    using submitLoop_ids [of submits recordId ?n 0 "[]" rm] l by simp
  show ?thesis
    using assms f l ids
    by (auto simp: startVariations_def atGet_def atPatch_def Let_def patch_fields_def
        no_fields_def override_def split: sum.splits if_splits prod.splits option.splits)
qed

lemma startVariations_resets_ids:
  assumes "startVariations beyond now st rm recordId fetched submits = Inr (res, st', rm')"
  shows "\<exists>f'. st' recordId = Some f' \<and> Status f' = Some ''processing'' \<and>
           seenIds f' = {} \<and> failedIds f' = {}"
proof -
  obtain f where f: "st recordId = Some f"
    using assms by (cases "st recordId") (auto simp: startVariations_def atGet_def)
  have e: "parseIds (Some []) = []"
    by (simp add: parseIds_def or_empty_Some id_tokens_Nil new_Set_def)
  obtain ids rm1 where
    l: "submitLoop submits recordId (nat (clampBatchCount (Batch_Count f))) 0 ([], rm) = (ids, rm1)"
    by (cases "submitLoop submits recordId (nat (clampBatchCount (Batch_Count f))) 0 ([], rm)") auto
  show ?thesis
    using assms f l
    by (auto simp: startVariations_def atGet_def atPatch_def Let_def patch_fields_def
        no_fields_def override_def seenIds_def failedIds_def e
        split: sum.splits if_splits prod.splits option.splits)
qed

lemma startVariations_total:
  assumes "st recordId = Some f" and "inputs_ok f"
  shows "\<exists>res st' rm'. startVariations beyond now st rm recordId (Inr img) submits = Inr (res, st', rm')"
proof -
  let ?n = "nat (clampBatchCount (Batch_Count f))"
  obtain ids rm1 where l: "submitLoop submits recordId ?n 0 ([], rm) = (ids, rm1)"
    by (cases "submitLoop submits recordId ?n 0 ([], rm)") auto
  show ?thesis
    using assms l
    by (auto simp: startVariations_def atGet_def atPatch_def Let_def inputs_ok_def
        split: sum.splits if_splits prod.splits option.splits)
qed

lemma length_map_filter_all:
  "(\<And>x. x \<in> set xs \<Longrightarrow> g x \<noteq> None) \<Longrightarrow> length (List.map_filter g xs) = length xs"
  by (induction xs) (auto simp: List.map_filter_simps split: option.splits)

lemma clampBatchCount_range: "1 \<le> clampBatchCount v \<and> clampBatchCount v \<le> 10"
  by (simp add: clampBatchCount_def)

lemma startVariations_ids:
  assumes "st recordId = Some f" and "inputs_ok f"
  shows "\<exists>res st' rm'.
           startVariations beyond now st rm recordId (Inr img) submits = Inr (res, st', rm') \<and>
           res_requestIds res =
             List.map_filter reply_id (map submits [0..<nat (clampBatchCount (Batch_Count f))]) \<and>
           submitted res = length (res_requestIds res)"
proof -
  from startVariations_total [where st = st and recordId = recordId, OF assms, of beyond now rm img submits]
  obtain res st' rm' where 1: "startVariations beyond now st rm recordId (Inr img) submits = Inr (res, st', rm')"
    by blast
  from startVariations_Inr [OF 1] assms(1) 1 show ?thesis by auto
qed

text \<open>
  Claim C8. A run of the coordinator on a batch with valid inputs makes every one of its
  \<open>batchCount\<close> submissions, whatever the earlier ones did, and its one write of Request
  IDs after the loop holds the ids of the submissions that succeeded, in submission
  order, and no others.
\<close>

theorem fanout_request_ids:
  assumes "st recordId = Some f" and "inputs_ok f"
  shows "\<exists>res st' rm' f'.
           startVariations beyond now st rm recordId (Inr img) submits = Inr (res, st', rm') \<and>
           st' recordId = Some f' \<and>
           res_requestIds res =
             List.map_filter reply_id (map submits [0..<nat (clampBatchCount (Batch_Count f))]) \<and>
           Request_IDs f' = Some (join '', '' (res_requestIds res)) \<and>
           submitted res = length (res_requestIds res)"
proof -
  from startVariations_total [where st = st and recordId = recordId, OF assms, of beyond now rm img submits]
  obtain res st' rm' where 1: "startVariations beyond now st rm recordId (Inr img) submits = Inr (res, st', rm')"
    by blast
  from startVariations_Inr [OF 1] assms(1) 1 show ?thesis by auto
qed

text \<open>
  The theorem at a batch of three whose second submission is rejected: the jobs
  \<open>job0\<close> and \<open>job2\<close> are persisted.
\<close>

theorem fanout_request_ids_witness:
  "store_count (Some 3) ''rec1'' = Some ((batch_with [])\<lparr>Batch_Count := Some 3, Status := Some ''idle''\<rparr>) \<and>
   inputs_ok ((batch_with [])\<lparr>Batch_Count := Some 3, Status := Some ''idle''\<rparr>) \<and>
   request_ids_of ''rec1''
     (startVariations text_unused 7 (store_count (Some 3)) Map.empty ''rec1'' (Inr ''data:image/png;base64,AAAA'')
        second_rejected) = Some (Some ''job0, job2'') \<and>
   submitted_of
     (startVariations text_unused 7 (store_count (Some 3)) Map.empty ''rec1'' (Inr ''data:image/png;base64,AAAA'')
        second_rejected) = Some 2"
proof -
  let ?f = "(batch_with [])\<lparr>Batch_Count := Some 3, Status := Some ''idle''\<rparr>"
  have h1: "store_count (Some 3) ''rec1'' = Some ?f" by (simp add: store_count_def)
  have h2: "inputs_ok ?f" by (simp add: inputs_ok_def batch_with_def truthy_def or_empty_def)
  have v: "List.map_filter reply_id (map second_rejected [0..<nat (clampBatchCount (Batch_Count ?f))]) =
           [''job0'', ''job2'']"
    by code_simp
  have j: "join '', '' [''job0'', ''job2''] = ''job0, job2''" by simp
  from fanout_request_ids [where st = "store_count (Some 3)" and recordId = "''rec1''", OF h1 h2,
      of text_unused 7 Map.empty "''data:image/png;base64,AAAA''" second_rejected]
  obtain res st' rm' f' where
    1: "startVariations text_unused 7 (store_count (Some 3)) Map.empty ''rec1'' (Inr ''data:image/png;base64,AAAA'')
          second_rejected = Inr (res, st', rm')"
    and 2: "st' ''rec1'' = Some f'"
    and 3: "res_requestIds res = [''job0'', ''job2'']"
    and 4: "Request_IDs f' = Some (join '', '' (res_requestIds res))"
    and 5: "submitted res = length (res_requestIds res)"
    unfolding v by blast
  show ?thesis
    using h1 h2 unfolding 1 by (simp add: request_ids_of_def submitted_of_def 2 3 4 5)
qed

text \<open>
  Claim C5, as amended. When every submission succeeds, the number of jobs submitted is
  the clamped batch count, which lies between 1 and 10. A batch count that is absent or
  0 takes the default 4; the requested counts 1, 10 and 15 give 1, 10 and 10 jobs.
\<close>

theorem fanout_clamp:
  assumes "st recordId = Some f" and "inputs_ok f"
    and "list_all (\<lambda>i. reply_id (submits i) \<noteq> None) [0..<10]"
  shows "\<exists>res st' rm'.
           startVariations beyond now st rm recordId (Inr img) submits = Inr (res, st', rm') \<and>
           int (submitted res) = clampBatchCount (Batch_Count f) \<and>
           1 \<le> submitted res \<and> submitted res \<le> 10 \<and>
           (Batch_Count f = None \<or> Batch_Count f = Some 0 \<longrightarrow> submitted res = 4) \<and>
           (Batch_Count f = Some 1 \<longrightarrow> submitted res = 1) \<and>
           (Batch_Count f = Some 10 \<longrightarrow> submitted res = 10) \<and>
           (Batch_Count f = Some 15 \<longrightarrow> submitted res = 10)"
proof -
  let ?n = "nat (clampBatchCount (Batch_Count f))"
  from startVariations_ids [where st = st and recordId = recordId, OF assms(1,2),
      of beyond now rm img submits]
  obtain res st' rm' where
    1: "startVariations beyond now st rm recordId (Inr img) submits = Inr (res, st', rm')"
    and 3: "res_requestIds res = List.map_filter reply_id (map submits [0..<?n])"
    and 5: "submitted res = length (res_requestIds res)"
    by blast
  have r: "1 \<le> clampBatchCount (Batch_Count f)" "clampBatchCount (Batch_Count f) \<le> 10"
    using clampBatchCount_range by auto
  have "\<And>x. x \<in> set (map submits [0..<?n]) \<Longrightarrow> reply_id x \<noteq> None"
  proof -
    fix x assume "x \<in> set (map submits [0..<?n])"
    then obtain i where i: "i < ?n" "x = submits i" by auto
    then have "i \<in> set [0..<10]" using r by auto
    then show "reply_id x \<noteq> None" using assms(3) i(2) unfolding list_all_iff by blast
  qed
  then have "length (List.map_filter reply_id (map submits [0..<?n])) = length (map submits [0..<?n])"
    by (rule length_map_filter_all)
  then have n: "submitted res = ?n" by (simp add: 3 5)
  then have c: "int (submitted res) = clampBatchCount (Batch_Count f)" using r by simp
  have v: "(Batch_Count f = None \<or> Batch_Count f = Some 0 \<longrightarrow> submitted res = 4) \<and>
           (Batch_Count f = Some 1 \<longrightarrow> submitted res = 1) \<and>
           (Batch_Count f = Some 10 \<longrightarrow> submitted res = 10) \<and>
           (Batch_Count f = Some 15 \<longrightarrow> submitted res = 10)"
    unfolding n by (auto simp: clampBatchCount_def)
  have b: "1 \<le> submitted res \<and> submitted res \<le> 10" using r c by linarith
  show ?thesis using 1 c b v by blast
qed


text \<open>
  The theorem at the requested count 15 with a job service that accepts every submission:
  ten jobs are submitted.
\<close>

theorem fanout_clamp_witness:
  "store_count (Some 15) ''rec1'' =
     Some ((batch_with [])\<lparr>Batch_Count := Some 15, Status := Some ''idle''\<rparr>) \<and>
   inputs_ok ((batch_with [])\<lparr>Batch_Count := Some 15, Status := Some ''idle''\<rparr>) \<and>
   list_all (\<lambda>i. reply_id (all_accepted i) \<noteq> None) [0..<10] \<and>
   submitted_of
     (startVariations text_unused 7 (store_count (Some 15)) Map.empty ''rec1''
        (Inr ''data:image/png;base64,AAAA'') all_accepted) = Some 10"
proof -
  let ?f = "(batch_with [])\<lparr>Batch_Count := Some 15, Status := Some ''idle''\<rparr>"
  have h1: "store_count (Some 15) ''rec1'' = Some ?f" by (simp add: store_count_def)
  have h2: "inputs_ok ?f" by (simp add: inputs_ok_def batch_with_def truthy_def or_empty_def)
  have h3: "list_all (\<lambda>i. reply_id (all_accepted i) \<noteq> None) [0..<10]"
    by (simp add: list_all_iff reply_id_def all_accepted_def submitVariation_def or_else_def
        truthy_def)
  have b: "Batch_Count ?f = Some 15" by simp
  from fanout_clamp [where st = "store_count (Some 15)" and recordId = "''rec1''", OF h1 h2 h3,
      of text_unused 7 Map.empty "''data:image/png;base64,AAAA''"]
  obtain res st' rm' where
    1: "startVariations text_unused 7 (store_count (Some 15)) Map.empty ''rec1''
          (Inr ''data:image/png;base64,AAAA'') all_accepted = Inr (res, st', rm')"
    and 2: "Batch_Count ?f = Some 15 \<longrightarrow> submitted res = 10"
    by blast
  show ?thesis using h1 h2 h3 2 b unfolding 1 by (simp add: submitted_of_def)
qed

text \<open>
  Claim C5 as stated fails at the requested count 0: \<open>Number(0) || 4\<close> is 4, so four jobs
  are submitted, not one.
\<close>

theorem fanout_zero_counterexample:
  "clampBatchCount (Some 0) = 4 \<and>
   submitted_of
     (startVariations text_unused 7 (store_count (Some 0)) Map.empty ''rec1''
        (Inr ''data:image/png;base64,AAAA'') all_accepted) = Some 4"
  by code_simp

section \<open>Properties of the push listener\<close>

text \<open>
  Claim C7. A push notification whose job id is not in the job registry is answered with
  status 202 and \<open>{ok: false}\<close>; the reconciler is not called and the store, with every
  field of every batch record, is as it was.
\<close>

theorem webhook_unknown_job:
  assumes "\<forall>r. or_else (b_request_id b) (b_id b) = Some r \<longrightarrow> rm r = None"
  shows "webhook t_upd t_done st rm b =
         \<lparr>code = 202, body = OkFlag False, reconciled = [], store_after = st\<rparr>"
  using assms by (auto simp: webhook_def Let_def split: option.splits)

text \<open>
  The theorem at a notification that job \<open>Z\<close> has completed, with only job \<open>A\<close> of batch
  \<open>rec1\<close> in the registry.
\<close>

theorem webhook_unknown_job_witness:
  "or_else (b_request_id \<lparr>b_request_id = None, b_id = Some ''Z'', b_status = Some ''completed'',
                           b_output = Some [''u9'']\<rparr>)
           (b_id \<lparr>b_request_id = None, b_id = Some ''Z'', b_status = Some ''completed'',
                   b_output = Some [''u9'']\<rparr>) = Some ''Z'' \<and>
   (Map.empty(''A'' \<mapsto> ''rec1'')) ''Z'' = None \<and>
   webhook 1 2 (store_with ''A'') (Map.empty(''A'' \<mapsto> ''rec1''))
     \<lparr>b_request_id = None, b_id = Some ''Z'', b_status = Some ''completed'',
      b_output = Some [''u9'']\<rparr> =
   \<lparr>code = 202, body = OkFlag False, reconciled = [], store_after = store_with ''A''\<rparr>"
proof -
  let ?b = "\<lparr>b_request_id = None, b_id = Some ''Z'', b_status = Some ''completed'',
             b_output = Some [''u9'']\<rparr>"
  let ?rm = "Map.empty(''A'' \<mapsto> ''rec1'')"
  have r: "or_else (b_request_id ?b) (b_id ?b) = Some ''Z''"
    by (simp add: or_else_def truthy_def)
  have m: "?rm ''Z'' = None" by simp
  have h: "\<forall>r. or_else (b_request_id ?b) (b_id ?b) = Some r \<longrightarrow> ?rm r = None"
    unfolding r using m by simp
  from webhook_unknown_job [where b = ?b and rm = ?rm, OF h, of 1 2 "store_with ''A''"]
  show ?thesis using r m by simp
qed

lemma webhook_known_job_example:
  "code (webhook 1 2 (store_with ''A'') (Map.empty(''A'' \<mapsto> ''rec1''))
     \<lparr>b_request_id = None, b_id = Some ''A'', b_status = Some ''COMPLETED'',
      b_output = Some [''u9'']\<rparr>) = 200 \<and>
   field_of Status ''rec1'' (Inr (store_after (webhook 1 2 (store_with ''A'') (Map.empty(''A'' \<mapsto> ''rec1''))
     \<lparr>b_request_id = None, b_id = Some ''A'', b_status = Some ''COMPLETED'',
      b_output = Some [''u9'']\<rparr>))) = Some (Some ''completed'')"
  by code_simp

section \<open>Properties of the poller\<close>

lemma check_time_ge: "now \<le> check_time env now i n"
proof (induction n arbitrary: now i)
  case 0
  show ?case by simp
next
  case (Suc n)
  have "now \<le> now + delay env i + 7000" by simp
  also have "\<dots> \<le> check_time env (now + delay env i + 7000) (Suc i) n" by (rule Suc.IH)
  finally show ?case by simp
qed

lemma pollLoop_pending:
  assumes "pending (replies env i)" and "now < timeout"
  shows "pollLoop env rid recordId timeout now i st =
         pollLoop env rid recordId timeout (now + delay env i + 7000) (Suc i) st"
  using assms
  by (subst pollLoop.simps) (auto simp: pending_def Let_def split: sum.splits)

lemma pollLoop_error:
  assumes "getResult (replies env i) = Inl e" and "now < timeout"
  shows "pollLoop env rid recordId timeout now i st =
         \<lparr>calls = [\<lparr>outputs = [], requestId = rid, failed = True\<rparr>], fetches = Suc i,
          outcome = appendOutputs (now + delay env i) (now + delay env i) st recordId
                      \<lparr>outputs = [], requestId = rid, failed = True\<rparr>\<rparr>"
  using assms
  by (subst pollLoop.simps) (simp add: Let_def poll_catch_def failure_args_def)

lemma pollLoop_deadline:
  assumes "timeout \<le> now"
  shows "pollLoop env rid recordId timeout now i st =
         \<lparr>calls = [\<lparr>outputs = [], requestId = rid, failed = True\<rparr>], fetches = i,
          outcome = appendOutputs now now st recordId
                      \<lparr>outputs = [], requestId = rid, failed = True\<rparr>\<rparr>"
  using assms by (subst pollLoop.simps) (simp add: failure_args_def)

lemma pollLoop_success:
  assumes "getResult (replies env i) = Inr (status, outs)"
    and "status \<in> set [''completed'', ''succeeded'']"
    and "st recordId = Some f" and "now < timeout"
  shows "pollLoop env rid recordId timeout now i st =
         \<lparr>calls = [\<lparr>outputs = outs, requestId = rid, failed = False\<rparr>], fetches = Suc i,
          outcome = appendOutputs (now + delay env i) (now + delay env i) st recordId
                      \<lparr>outputs = outs, requestId = rid, failed = False\<rparr>\<rparr>"
proof -
  from appendOutputs_Some [where st = st and recordId = recordId, OF assms(3),
      of "now + delay env i" "now + delay env i" "success_args rid outs"]
  obtain st' where
    "appendOutputs (now + delay env i) (now + delay env i) st recordId (success_args rid outs) =
       Inr st'"
    by blast
  then show ?thesis
    using assms(1,2,4)
    by (subst pollLoop.simps) (simp add: Let_def success_args_def)
qed

lemma pollLoop_error_after:
  assumes "\<forall>j<n. pending (replies env (i + j))"
    and "getResult (replies env (i + n)) = Inl e"
    and "check_time env now i n < timeout"
  shows "pollLoop env rid recordId timeout now i st =
           \<lparr>calls = [\<lparr>outputs = [], requestId = rid, failed = True\<rparr>], fetches = Suc (i + n),
            outcome = appendOutputs (check_time env now i n + delay env (i + n))
                        (check_time env now i n + delay env (i + n)) st recordId
                        \<lparr>outputs = [], requestId = rid, failed = True\<rparr>\<rparr>"
  using assms
proof (induction n arbitrary: now i)
  case 0
  then show ?case using pollLoop_error [of env i e now timeout rid recordId st] by simp
next
  case (Suc n)
  have lt: "now < timeout"
    using check_time_ge [of now env i "Suc n"] Suc.prems(3) by simp
  have p: "pending (replies env i)" using Suc.prems(1) by force
  have a: "\<forall>j<n. pending (replies env (Suc i + j))"
    using Suc.prems(1) by (metis add_Suc_shift not_less_eq)
  have b: "getResult (replies env (Suc i + n)) = Inl e" using Suc.prems(2) by simp
  have c: "check_time env (now + delay env i + 7000) (Suc i) n < timeout"
    using Suc.prems(3) by simp
  from Suc.IH [OF a b c] show ?case
    unfolding pollLoop_pending [OF p lt] by simp
qed

lemma pollLoop_deadline_after:
  assumes "\<forall>j<n. pending (replies env (i + j))"
    and "timeout \<le> check_time env now i n"
  shows "\<exists>m\<le>n. timeout \<le> check_time env now i m \<and>
           pollLoop env rid recordId timeout now i st =
           \<lparr>calls = [\<lparr>outputs = [], requestId = rid, failed = True\<rparr>], fetches = i + m,
            outcome = appendOutputs (check_time env now i m) (check_time env now i m) st recordId
                        \<lparr>outputs = [], requestId = rid, failed = True\<rparr>\<rparr>"
  using assms
proof (induction n arbitrary: now i)
  case 0
  then show ?case using pollLoop_deadline [of timeout now env rid recordId i st] by simp
next
  case (Suc n)
  show ?case
  proof (cases "now < timeout")
    case False
    then have "timeout \<le> check_time env now i 0 \<and>
           pollLoop env rid recordId timeout now i st =
           \<lparr>calls = [\<lparr>outputs = [], requestId = rid, failed = True\<rparr>], fetches = i + 0,
            outcome = appendOutputs (check_time env now i 0) (check_time env now i 0) st recordId
                        \<lparr>outputs = [], requestId = rid, failed = True\<rparr>\<rparr>"
      using pollLoop_deadline [of timeout now env rid recordId i st] by simp
    then show ?thesis by blast
  next
    case True
    have p: "pending (replies env i)" using Suc.prems(1) by force
    have a: "\<forall>j<n. pending (replies env (Suc i + j))"
      using Suc.prems(1) by (metis add_Suc_shift not_less_eq)
    have c: "timeout \<le> check_time env (now + delay env i + 7000) (Suc i) n"
      using Suc.prems(2) by simp
    from Suc.IH [OF a c] obtain m where m: "m \<le> n"
      "timeout \<le> check_time env (now + delay env i + 7000) (Suc i) m"
      "pollLoop env rid recordId timeout (now + delay env i + 7000) (Suc i) st =
         \<lparr>calls = [\<lparr>outputs = [], requestId = rid, failed = True\<rparr>], fetches = Suc i + m,
          outcome = appendOutputs (check_time env (now + delay env i + 7000) (Suc i) m)
                      (check_time env (now + delay env i + 7000) (Suc i) m) st recordId
                      \<lparr>outputs = [], requestId = rid, failed = True\<rparr>\<rparr>"
      by blast
    have "timeout \<le> check_time env now i (Suc m) \<and>
           pollLoop env rid recordId timeout now i st =
           \<lparr>calls = [\<lparr>outputs = [], requestId = rid, failed = True\<rparr>], fetches = i + Suc m,
            outcome = appendOutputs (check_time env now i (Suc m)) (check_time env now i (Suc m))
                        st recordId \<lparr>outputs = [], requestId = rid, failed = True\<rparr>\<rparr>"
      unfolding pollLoop_pending [OF p True] m(3) using m(2) by simp
    moreover have "Suc m \<le> Suc n" using m(1) by simp
    ultimately show ?thesis by blast
  qed
qed

lemma pending_still_running: "pending still_running"
  by code_simp

text \<open>
  Claim C6, as amended. In every run of the poller: when the status requests before request
  \<open>k\<close> return a status that is not terminal, request \<open>k\<close> fails and the loop test before
  it is passed before the deadline of 20 minutes after the start, the run makes exactly one
  reconciler call, with no outputs and \<open>failed\<close> set, and no further status request.
  When every status request made before a loop test finds the deadline reached returns a
  status that is not terminal, the run makes exactly one reconciler call, with no outputs
  and \<open>failed\<close> set, at the time of that loop test. The deadline is read at the loop test
  only.
\<close>

theorem poller_error_or_timeout:
  "((\<forall>j<k. pending (replies env j)) \<and> getResult (replies env k) = Inl e \<and>
    check_time env start 0 k < start + 20 * 60 * 1000 \<longrightarrow>
      pollUntilDone env start rid recordId st =
        \<lparr>calls = [\<lparr>outputs = [], requestId = rid, failed = True\<rparr>], fetches = Suc k,
         outcome = appendOutputs (check_time env start 0 k + delay env k)
                     (check_time env start 0 k + delay env k) st recordId
                     \<lparr>outputs = [], requestId = rid, failed = True\<rparr>\<rparr>) \<and>
   ((\<forall>j<k. pending (replies env j)) \<and> start + 20 * 60 * 1000 \<le> check_time env start 0 k \<longrightarrow>
      (\<exists>m\<le>k. start + 20 * 60 * 1000 \<le> check_time env start 0 m \<and>
         pollUntilDone env start rid recordId st =
           \<lparr>calls = [\<lparr>outputs = [], requestId = rid, failed = True\<rparr>], fetches = m,
            outcome = appendOutputs (check_time env start 0 m) (check_time env start 0 m)
                        st recordId \<lparr>outputs = [], requestId = rid, failed = True\<rparr>\<rparr>))"
proof (intro conjI impI)
  assume a: "(\<forall>j<k. pending (replies env j)) \<and> getResult (replies env k) = Inl e \<and>
    check_time env start 0 k < start + 20 * 60 * 1000"
  then have "\<forall>j<k. pending (replies env (0 + j))" "getResult (replies env (0 + k)) = Inl e"
    "check_time env start 0 k < start + 20 * 60 * 1000"
    by simp_all
  from pollLoop_error_after [OF this, of rid recordId st]
  show "pollUntilDone env start rid recordId st =
        \<lparr>calls = [\<lparr>outputs = [], requestId = rid, failed = True\<rparr>], fetches = Suc k,
         outcome = appendOutputs (check_time env start 0 k + delay env k)
                     (check_time env start 0 k + delay env k) st recordId
                     \<lparr>outputs = [], requestId = rid, failed = True\<rparr>\<rparr>"
    unfolding pollUntilDone_def by simp
next
  assume a: "(\<forall>j<k. pending (replies env j)) \<and> start + 20 * 60 * 1000 \<le> check_time env start 0 k"
  then have "\<forall>j<k. pending (replies env (0 + j))"
    "start + 20 * 60 * 1000 \<le> check_time env start 0 k"
    by simp_all
  from pollLoop_deadline_after [OF this, of rid recordId st]
  show "\<exists>m\<le>k. start + 20 * 60 * 1000 \<le> check_time env start 0 m \<and>
         pollUntilDone env start rid recordId st =
           \<lparr>calls = [\<lparr>outputs = [], requestId = rid, failed = True\<rparr>], fetches = m,
            outcome = appendOutputs (check_time env start 0 m) (check_time env start 0 m)
                        st recordId \<lparr>outputs = [], requestId = rid, failed = True\<rparr>\<rparr>"
    unfolding pollUntilDone_def by simp
qed

text \<open>
  The theorem at two runs for job \<open>A\<close> of batch \<open>rec1\<close>, started at time 1000: one whose
  second status request fails, and one whose status requests take ten minutes each and
  always find the job running. Both put \<open>A\<close> into failedIds.
\<close>

theorem poller_error_or_timeout_witness:
  "pending (replies env_error 0) \<and>
   getResult (replies env_error 1) = Inl GetResultFailed \<and>
   check_time env_error 1000 0 1 < 1000 + 20 * 60 * 1000 \<and>
   calls (pollUntilDone env_error 1000 ''A'' ''rec1'' (store_with ''A, B'')) =
     [\<lparr>outputs = [], requestId = ''A'', failed = True\<rparr>] \<and>
   fetches (pollUntilDone env_error 1000 ''A'' ''rec1'' (store_with ''A, B'')) = 2 \<and>
   field_of failedIds ''rec1''
     (outcome (pollUntilDone env_error 1000 ''A'' ''rec1'' (store_with ''A, B''))) = Some {''A''} \<and>
   pending (replies env_slow 0) \<and> pending (replies env_slow 1) \<and>
   1000 + 20 * 60 * 1000 \<le> check_time env_slow 1000 0 2 \<and>
   calls (pollUntilDone env_slow 1000 ''A'' ''rec1'' (store_with ''A, B'')) =
     [\<lparr>outputs = [], requestId = ''A'', failed = True\<rparr>] \<and>
   fetches (pollUntilDone env_slow 1000 ''A'' ''rec1'' (store_with ''A, B'')) \<le> 2"
proof -
  have p0: "pending (replies env_error 0)" by (simp add: env_error_def pending_still_running)
  have e1: "getResult (replies env_error 1) = Inl GetResultFailed"
    by (simp add: env_error_def getResult_def)
  have t1: "check_time env_error 1000 0 1 = 8150" by (simp add: env_error_def)
  have d1: "delay env_error 1 = 150" by (simp add: env_error_def)
  have c1: "check_time env_error 1000 0 1 < 1000 + 20 * 60 * 1000" unfolding t1 by simp
  have q: "pending (replies env_slow 0)" "pending (replies env_slow 1)"
    by (simp_all add: env_slow_def pending_still_running)
  have c2: "1000 + 20 * 60 * 1000 \<le> check_time env_slow 1000 0 2"
    by (simp add: env_slow_def numeral_2_eq_2)
  have a1: "\<forall>j<1. pending (replies env_error j)" using p0 by simp
  have a2: "\<forall>j<2. pending (replies env_slow j)" using q by (simp add: env_slow_def)
  from poller_error_or_timeout [of 1 env_error GetResultFailed 1000 "''A''" "''rec1''"
      "store_with ''A, B''"] a1 e1 c1
  have r1: "pollUntilDone env_error 1000 ''A'' ''rec1'' (store_with ''A, B'') =
      \<lparr>calls = [\<lparr>outputs = [], requestId = ''A'', failed = True\<rparr>], fetches = 2,
       outcome = appendOutputs 8300 8300 (store_with ''A, B'') ''rec1''
                   \<lparr>outputs = [], requestId = ''A'', failed = True\<rparr>\<rparr>"
    unfolding t1 d1 by simp
  have f1: "field_of failedIds ''rec1''
      (appendOutputs t t (store_with ''A, B'') ''rec1''
         \<lparr>outputs = [], requestId = ''A'', failed = True\<rparr>) = Some {''A''}" for t
    by code_simp
  from poller_error_or_timeout [of 2 env_slow GetResultFailed 1000 "''A''" "''rec1''"
      "store_with ''A, B''"] a2 c2
  obtain m where m: "m \<le> 2"
    and r2: "pollUntilDone env_slow 1000 ''A'' ''rec1'' (store_with ''A, B'') =
      \<lparr>calls = [\<lparr>outputs = [], requestId = ''A'', failed = True\<rparr>], fetches = m,
       outcome = appendOutputs (check_time env_slow 1000 0 m) (check_time env_slow 1000 0 m)
                   (store_with ''A, B'') ''rec1''
                   \<lparr>outputs = [], requestId = ''A'', failed = True\<rparr>\<rparr>"
    by blast
  show ?thesis using p0 e1 c1 q c2 m unfolding r1 r2 by (simp add: f1)
qed

text \<open>
  Claim C6 as stated fails for a status request that starts before the deadline and
  returns after it: the run starts at time 0, its first request returns at 1200001, past
  the deadline 1200000, with status \<open>completed\<close>, and the job is reconciled as a success.
\<close>

theorem poller_late_success_counterexample:
  "(0::nat) + 20 * 60 * 1000 < 0 + delay env_late 0 \<and>
   calls (pollUntilDone env_late 0 ''A'' ''rec1'' (store_with ''A, B'')) =
     [\<lparr>outputs = [''u1''], requestId = ''A'', failed = False\<rparr>] \<and>
   fetches (pollUntilDone env_late 0 ''A'' ''rec1'' (store_with ''A, B'')) = 1"
proof -
  have "getResult (OkJson \<lparr>r_status = Some ''completed'', r_output = Some [''u1''],
                           r_outputs = None\<rparr>) = Inr (''completed'', [''u1''])"
    by code_simp
  then have g: "getResult (replies env_late 0) = Inr (''completed'', [''u1''])"
    by (simp add: env_late_def)
  have h: "store_with ''A, B'' ''rec1'' = Some (batch_with ''A, B'')"
    by (simp add: store_with_def)
  have d: "(0::nat) + 20 * 60 * 1000 < 0 + delay env_late 0" by (simp add: env_late_def)
  have "pollLoop env_late ''A'' ''rec1'' (0 + 20 * 60 * 1000) 0 0 (store_with ''A, B'') =
      \<lparr>calls = [\<lparr>outputs = [''u1''], requestId = ''A'', failed = False\<rparr>], fetches = Suc 0,
       outcome = appendOutputs (0 + delay env_late 0) (0 + delay env_late 0)
                   (store_with ''A, B'') ''rec1''
                   \<lparr>outputs = [''u1''], requestId = ''A'', failed = False\<rparr>\<rparr>"
    using pollLoop_success [where st = "store_with ''A, B''" and recordId = "''rec1''" and
        env = env_late and i = 0 and now = 0 and timeout = "0 + 20 * 60 * 1000" and rid = "''A''",
        OF g _ h]
    by simp
  then show ?thesis using d by (simp add: pollUntilDone_def)
qed

end
